theory Spec2Isabelle
  imports Main "HOL-Library.Word"
begin

section \<open>The object model and the virtual machine of \<^verbatim>\<open>src/src/main.c\<close>\<close>

text \<open>
  The C program is embedded for an LP64 platform: a pointer and a \<^verbatim>\<open>size_t\<close> are 64-bit
  words, \<^verbatim>\<open>unsigned char\<close> is an 8-bit word and \<^verbatim>\<open>int\<close> a 32-bit word. The null
  pointer is the address 0. The embedding follows the default build, in which
  \<^verbatim>\<open>NDEBUG\<close> is not defined and every \<^verbatim>\<open>assert\<close> is active; a failed assertion,
  and a dereference of a null or dangling pointer, is a value of type \<open>error\<close>.
  The diagnostic \<^verbatim>\<open>printf\<close> of \<^verbatim>\<open>gc\<close> has no effect on the state and is left out.
\<close>

type_synonym addr = "64 word"
type_synonym size_t = "64 word"

definition GC_INITIAL_THRESHOLD :: size_t where
  "GC_INITIAL_THRESHOLD = 8"

definition STACK_MAX :: nat where
  "STACK_MAX = 256"

datatype ObjectType = OBJECT_TYPE_INT | OBJECT_TYPE_PAIR

text \<open>
  \<^verbatim>\<open>struct sObject\<close>. The fields \<^verbatim>\<open>next\<close>, \<^verbatim>\<open>type\<close> and \<^verbatim>\<open>value\<close> are named
  \<open>next_ptr\<close>, \<open>otype\<close> and \<open>ivalue\<close> here. The members of the anonymous union are
  kept as separate fields: the program reads \<^verbatim>\<open>head\<close> and \<^verbatim>\<open>tail\<close> only of an
  object whose type is \<^verbatim>\<open>OBJECT_TYPE_PAIR\<close>, never reads \<^verbatim>\<open>value\<close>, and never changes
  the type of an object, so the overlap of the members cannot be observed.
\<close>

record Object =
  mark :: "8 word"
  next_ptr :: addr
  otype :: ObjectType
  ivalue :: "32 word"
  head :: addr
  tail :: addr

text \<open>The allocated objects: a freed or never allocated address maps to \<open>None\<close>, so
  that a dereference of a dangling pointer is the error \<open>InvalidPointer\<close>. No object is
  allocated at the null address in any state that arises (see \<open>reachable\<close> and
  \<open>malloc_ok\<close> below), so a dereference of the null pointer is the same error.\<close>

type_synonym heap = "addr \<Rightarrow> Object option"

text \<open>
  \<^verbatim>\<open>VM\<close>. The depth \<^verbatim>\<open>stack_size\<close> is a natural number: the assertions of
  \<^verbatim>\<open>vm_push\<close> and \<^verbatim>\<open>vm_pop\<close> keep it between 0 and \<^verbatim>\<open>STACK_MAX\<close>, so it never
  wraps. The array \<^verbatim>\<open>stack\<close> is a function of the index; an access at an index of
  \<^verbatim>\<open>STACK_MAX\<close> or more is the error \<open>OutOfBounds\<close>.
\<close>

record VM =
  first_object :: addr
  object_num :: size_t
  object_max :: size_t
  stack_size :: nat
  stack :: "nat \<Rightarrow> addr"

datatype error =
  StackOverflow | StackUnderflow | AllocationFailed | InvalidPointer | OutOfBounds

text \<open>
  \<^verbatim>\<open>malloc(sizeof(Object))\<close> is a parameter of the operations that allocate: given the
  objects allocated at the moment of the call it returns the address of the new block (0
  when it fails) and the indeterminate contents of that block.
\<close>

type_synonym allocator = "heap \<Rightarrow> addr \<times> Object"

subsection \<open>Creation, push and pop\<close>

text \<open>\<^verbatim>\<open>new_vm\<close>: the argument is the result of \<^verbatim>\<open>malloc(sizeof(VM))\<close>, \<open>None\<close> when it
  fails, otherwise the indeterminate contents of the stack array.\<close>

definition new_vm :: "(nat \<Rightarrow> addr) option \<Rightarrow> error + VM" where
  "new_vm m =
     (case m of
        None \<Rightarrow> Inl AllocationFailed
      | Some raw \<Rightarrow>
          Inr \<lparr>first_object = 0, object_num = 0, object_max = GC_INITIAL_THRESHOLD,
               stack_size = 0, stack = raw\<rparr>)"

definition vm_push :: "VM \<Rightarrow> addr \<Rightarrow> error + VM" where
  "vm_push vm v =
     (if stack_size vm < STACK_MAX
      then Inr (vm\<lparr>stack := (stack vm)(stack_size vm := v), stack_size := stack_size vm + 1\<rparr>)
      else Inl StackOverflow)"

definition vm_pop :: "VM \<Rightarrow> error + addr \<times> VM" where
  "vm_pop vm =
     (if stack_size vm > 0
      then (let n = stack_size vm - 1
            in if n < STACK_MAX then Inr (stack vm n, vm\<lparr>stack_size := n\<rparr>)
               else Inl OutOfBounds)
      else Inl StackUnderflow)"

subsection \<open>The mark phase\<close>

definition unmarked :: "heap \<Rightarrow> addr set" where
  "unmarked h = {a. \<exists>ob. h a = Some ob \<and> mark ob = 0}"

definition marked :: "heap \<Rightarrow> addr set" where
  "marked h = {a. \<exists>ob. h a = Some ob \<and> mark ob \<noteq> 0}"

text \<open>\<^verbatim>\<open>gc_mark\<close>: the recursion of the C function, on the heap it mutates. The second
  recursive call reads \<^verbatim>\<open>obj->tail\<close> from the heap the first call returns.\<close>

function gc_mark :: "heap \<Rightarrow> addr \<Rightarrow> error + heap" where
  "gc_mark h obj =
     (case h obj of
        None \<Rightarrow> Inl InvalidPointer
      | Some ob \<Rightarrow>
          if mark ob \<noteq> 0 then Inr h
          else if otype ob = OBJECT_TYPE_PAIR
          then (case gc_mark (h(obj \<mapsto> ob\<lparr>mark := 1\<rparr>)) (head ob) of
                  Inl e \<Rightarrow> Inl e
                | Inr h2 \<Rightarrow>
                    (case h2 obj of
                       None \<Rightarrow> Inl InvalidPointer
                     | Some ob2 \<Rightarrow> gc_mark h2 (tail ob2)))
          else Inr (h(obj \<mapsto> ob\<lparr>mark := 1\<rparr>)))"
  by pat_completeness auto

lemma unmarked_upd_mark:
  "h a = Some ob \<Longrightarrow> mark ob = 0 \<Longrightarrow> unmarked (h(a \<mapsto> ob\<lparr>mark := 1\<rparr>)) = unmarked h - {a}"
  by (auto simp: unmarked_def)

lemma gc_mark_unmarked_subset:
  "gc_mark_dom (h, obj) \<Longrightarrow> gc_mark h obj = Inr h' \<Longrightarrow> unmarked h' \<subseteq> unmarked h"
proof (induction h obj arbitrary: h' rule: gc_mark.pinduct)
  case (1 h obj)
  show ?case
  proof (cases "h obj")
    case None
    with 1 show ?thesis by (simp add: gc_mark.psimps)
  next
    case (Some ob)
    show ?thesis
    proof (cases "mark ob \<noteq> 0")
      case True
      with 1 Some show ?thesis by (simp add: gc_mark.psimps)
    next
      case unm: False
      let ?h1 = "h(obj \<mapsto> ob\<lparr>mark := 1\<rparr>)"
      have sub1: "unmarked ?h1 \<subseteq> unmarked h"
        using Some unm by (auto simp: unmarked_upd_mark)
      show ?thesis
      proof (cases "otype ob = OBJECT_TYPE_PAIR")
        case False
        with 1 Some unm sub1 show ?thesis by (simp add: gc_mark.psimps)
      next
        case pair: True
        from 1(1) 1(4) Some unm pair obtain h2 ob2 where
          h2: "gc_mark ?h1 (head ob) = Inr h2" and ob2: "h2 obj = Some ob2"
          and res: "gc_mark h2 (tail ob2) = Inr h'"
          by (auto simp: gc_mark.psimps split: sum.splits option.splits)
        have "unmarked h2 \<subseteq> unmarked ?h1"
          by (rule 1(2) [OF Some unm pair h2])
        moreover have "unmarked h' \<subseteq> unmarked h2"
          by (rule 1(3) [OF Some unm pair h2 ob2 res])
        ultimately show ?thesis using sub1 by blast
      qed
    qed
  qed
qed

termination gc_mark
proof (relation "measure (\<lambda>(h, obj). card (unmarked h))", goal_cases)
  case 1
  show ?case by simp
next
  case (2 h obj ob)
  then have "unmarked (h(obj \<mapsto> ob\<lparr>mark := 1\<rparr>)) \<subset> unmarked h"
    by (auto simp: unmarked_upd_mark unmarked_def)
  then show ?case by (simp add: psubset_card_mono)
next
  case (3 h obj ob h2 ob2)
  then have "unmarked (h(obj \<mapsto> ob\<lparr>mark := 1\<rparr>)) \<subset> unmarked h"
    by (auto simp: unmarked_upd_mark unmarked_def)
  moreover have "unmarked h2 \<subseteq> unmarked (h(obj \<mapsto> ob\<lparr>mark := 1\<rparr>))"
    using 3 by (auto dest: gc_mark_unmarked_subset)
  ultimately have "unmarked h2 \<subset> unmarked h" by blast
  then show ?case by (simp add: psubset_card_mono)
qed

declare gc_mark.simps [simp del]

text \<open>\<^verbatim>\<open>gc_mark_all\<close>: the \<^verbatim>\<open>for\<close> loop over the stack, from index \<open>i\<close> on.\<close>

function gc_mark_all_loop :: "VM \<Rightarrow> heap \<Rightarrow> nat \<Rightarrow> error + heap" where
  "gc_mark_all_loop vm h i =
     (if i < stack_size vm
      then (if i < STACK_MAX
            then (case gc_mark h (stack vm i) of
                    Inl e \<Rightarrow> Inl e
                  | Inr h' \<Rightarrow> gc_mark_all_loop vm h' (i + 1))
            else Inl OutOfBounds)
      else Inr h)"
  by pat_completeness auto

termination gc_mark_all_loop
  by (relation "measure (\<lambda>(vm, h, i). stack_size vm - i)") auto

declare gc_mark_all_loop.simps [simp del]

definition gc_mark_all :: "VM \<Rightarrow> heap \<Rightarrow> error + heap" where
  "gc_mark_all vm h = gc_mark_all_loop vm h 0"

subsection \<open>The sweep phase\<close>

text \<open>
  The cursor \<^verbatim>\<open>Object* *obj\<close> of \<^verbatim>\<open>gc_sweep\<close> points either at the field
  \<^verbatim>\<open>first_object\<close> of the machine or at the field \<^verbatim>\<open>next\<close> of an object.
\<close>

datatype link = FirstObject | NextField addr

definition load_link :: "VM \<Rightarrow> heap \<Rightarrow> link \<Rightarrow> error + addr" where
  "load_link vm h l =
     (case l of
        FirstObject \<Rightarrow> Inr (first_object vm)
      | NextField x \<Rightarrow>
          (case h x of None \<Rightarrow> Inl InvalidPointer | Some ob \<Rightarrow> Inr (next_ptr ob)))"

definition store_link :: "VM \<Rightarrow> heap \<Rightarrow> link \<Rightarrow> addr \<Rightarrow> error + VM \<times> heap" where
  "store_link vm h l p =
     (case l of
        FirstObject \<Rightarrow> Inr (vm\<lparr>first_object := p\<rparr>, h)
      | NextField x \<Rightarrow>
          (case h x of
             None \<Rightarrow> Inl InvalidPointer
           | Some ob \<Rightarrow> Inr (vm, h(x \<mapsto> ob\<lparr>next_ptr := p\<rparr>))))"

text \<open>\<^verbatim>\<open>gc_sweep\<close>: the \<^verbatim>\<open>while\<close> loop, with the cursor as an argument.
  \<^verbatim>\<open>free\<close> removes the object from the heap.\<close>

function gc_sweep_loop :: "VM \<Rightarrow> heap \<Rightarrow> link \<Rightarrow> error + VM \<times> heap" where
  "gc_sweep_loop vm h obj =
     (case load_link vm h obj of
        Inl e \<Rightarrow> Inl e
      | Inr p \<Rightarrow>
          if p = 0 then Inr (vm, h)
          else (case h p of
                  None \<Rightarrow> Inl InvalidPointer
                | Some ob \<Rightarrow>
                    if mark ob = 0
                    then (case store_link vm h obj (next_ptr ob) of
                            Inl e \<Rightarrow> Inl e
                          | Inr (vm1, h1) \<Rightarrow>
                              gc_sweep_loop (vm1\<lparr>object_num := object_num vm1 - 1\<rparr>)
                                (h1(p := None)) obj)
                    else gc_sweep_loop vm (h(p \<mapsto> ob\<lparr>mark := 0\<rparr>)) (NextField p)))"
  by pat_completeness auto

lemma store_link_dom:
  "store_link vm h l p = Inr (vm1, h1) \<Longrightarrow> dom h1 = dom h"
  by (auto simp: store_link_def split: link.splits option.splits if_splits)

lemma store_link_marked:
  "store_link vm h l p = Inr (vm1, h1) \<Longrightarrow> marked h1 = marked h"
  by (auto simp: store_link_def marked_def split: link.splits option.splits if_splits)

lemma sweep_measure_free:
  assumes "h p = Some ob" "mark ob = 0" "dom h1 = dom h" "marked h1 = marked h"
  shows "card (dom (h1(p := None))) + card (marked (h1(p := None)))
           < card (dom h) + card (marked h)"
proof -
  have "dom (h1(p := None)) \<subset> dom h"
    using assms by auto
  then have "card (dom (h1(p := None))) < card (dom h)"
    by (simp add: psubset_card_mono)
  moreover have "marked (h1(p := None)) \<subseteq> marked h"
    using assms(4) by (auto simp: marked_def split: if_splits)
  then have "card (marked (h1(p := None))) \<le> card (marked h)"
    by (simp add: card_mono)
  ultimately show ?thesis by linarith
qed

lemma sweep_measure_unmark:
  assumes "h p = Some ob" "mark ob \<noteq> 0"
  shows "card (dom (h(p \<mapsto> ob\<lparr>mark := 0\<rparr>))) + card (marked (h(p \<mapsto> ob\<lparr>mark := 0\<rparr>)))
           < card (dom h) + card (marked h)"
proof -
  have "dom (h(p \<mapsto> ob\<lparr>mark := 0\<rparr>)) = dom h"
    using assms by auto
  moreover have "marked (h(p \<mapsto> ob\<lparr>mark := 0\<rparr>)) \<subset> marked h"
    using assms by (auto simp: marked_def)
  then have "card (marked (h(p \<mapsto> ob\<lparr>mark := 0\<rparr>))) < card (marked h)"
    by (simp add: psubset_card_mono)
  ultimately show ?thesis by simp
qed

termination gc_sweep_loop
proof (relation "measure (\<lambda>(vm, h, obj). card (dom h) + card (marked h))", goal_cases)
  case 1
  show ?case by simp
next
  case (2 vm h obj p ob x vm1 h1)
  then have st: "store_link vm h obj (next_ptr ob) = Inr (vm1, h1)"
    by simp
  have "dom h1 = dom h" "marked h1 = marked h"
    by (rule store_link_dom [OF st], rule store_link_marked [OF st])
  with 2 show ?case
    using sweep_measure_free [of h p ob h1] by simp
next
  case (3 vm h obj p ob)
  then show ?case
    using sweep_measure_unmark [of h p ob] by simp
qed

declare gc_sweep_loop.simps [simp del]

definition gc_sweep :: "VM \<Rightarrow> heap \<Rightarrow> error + VM \<times> heap" where
  "gc_sweep vm h = gc_sweep_loop vm h FirstObject"

subsection \<open>The collection cycle and the mutator operations\<close>

definition gc :: "VM \<Rightarrow> heap \<Rightarrow> error + VM \<times> heap" where
  "gc vm h =
     (if object_num vm = 0 then Inr (vm, h)
      else (case gc_mark_all vm h of
              Inl e \<Rightarrow> Inl e
            | Inr h1 \<Rightarrow>
                (case gc_sweep vm h1 of
                   Inl e \<Rightarrow> Inl e
                 | Inr (vm2, h2) \<Rightarrow>
                     Inr (vm2\<lparr>object_max :=
                                (if object_num vm2 \<noteq> 0 then object_num vm2 * 2
                                 else GC_INITIAL_THRESHOLD)\<rparr>, h2))))"

text \<open>\<^verbatim>\<open>new_object\<close>: the collection runs before \<^verbatim>\<open>malloc\<close>; a null result of
  \<^verbatim>\<open>malloc\<close> fails the assertion.\<close>

definition new_object :: "VM \<Rightarrow> heap \<Rightarrow> allocator \<Rightarrow> ObjectType \<Rightarrow> error + addr \<times> VM \<times> heap" where
  "new_object vm h alloc ty =
     (case (if object_num vm = object_max vm then gc vm h else Inr (vm, h)) of
        Inl e \<Rightarrow> Inl e
      | Inr (vm1, h1) \<Rightarrow>
          (let (obj, raw) = alloc h1
           in if obj = 0 then Inl AllocationFailed
              else Inr (obj,
                        vm1\<lparr>first_object := obj, object_num := object_num vm1 + 1\<rparr>,
                        h1(obj \<mapsto> raw\<lparr>mark := 0, otype := ty,
                                       next_ptr := first_object vm1\<rparr>))))"

definition vm_push_int :: "VM \<Rightarrow> heap \<Rightarrow> allocator \<Rightarrow> 32 word \<Rightarrow> error + addr \<times> VM \<times> heap" where
  "vm_push_int vm h alloc v =
     (case new_object vm h alloc OBJECT_TYPE_INT of
        Inl e \<Rightarrow> Inl e
      | Inr (obj, vm1, h1) \<Rightarrow>
          (case h1 obj of
             None \<Rightarrow> Inl InvalidPointer
           | Some ob \<Rightarrow>
               (let h2 = h1(obj \<mapsto> ob\<lparr>ivalue := v\<rparr>)
                in case vm_push vm1 obj of
                     Inl e \<Rightarrow> Inl e
                   | Inr vm2 \<Rightarrow> Inr (obj, vm2, h2))))"

definition vm_push_pair :: "VM \<Rightarrow> heap \<Rightarrow> allocator \<Rightarrow> error + addr \<times> VM \<times> heap" where
  "vm_push_pair vm h alloc =
     (case new_object vm h alloc OBJECT_TYPE_PAIR of
        Inl e \<Rightarrow> Inl e
      | Inr (obj, vm1, h1) \<Rightarrow>
          (case vm_pop vm1 of
             Inl e \<Rightarrow> Inl e
           | Inr (t, vm2) \<Rightarrow>
               (case h1 obj of
                  None \<Rightarrow> Inl InvalidPointer
                | Some ob \<Rightarrow>
                    (let h2 = h1(obj \<mapsto> ob\<lparr>tail := t\<rparr>)
                     in case vm_pop vm2 of
                          Inl e \<Rightarrow> Inl e
                        | Inr (hp, vm3) \<Rightarrow>
                            (case h2 obj of
                               None \<Rightarrow> Inl InvalidPointer
                             | Some ob2 \<Rightarrow>
                                 (let h3 = h2(obj \<mapsto> ob2\<lparr>head := hp\<rparr>)
                                  in case vm_push vm3 obj of
                                       Inl e \<Rightarrow> Inl e
                                     | Inr vm4 \<Rightarrow> Inr (obj, vm4, h3)))))))"

text \<open>\<^verbatim>\<open>free_vm\<close>: the result is the state at the moment \<^verbatim>\<open>free(vm)\<close> releases the
  machine.\<close>

definition free_vm :: "VM \<Rightarrow> heap \<Rightarrow> error + VM \<times> heap" where
  "free_vm vm h = gc (vm\<lparr>stack_size := 0\<rparr>) h"

section \<open>Specification of the collector\<close>

text \<open>\<open>chain h p xs\<close>: following \<^verbatim>\<open>next\<close> from \<open>p\<close> visits exactly the allocated objects
  \<open>xs\<close>, in this order, and then reaches the null pointer.\<close>

fun chain :: "heap \<Rightarrow> addr \<Rightarrow> addr list \<Rightarrow> bool" where
  "chain h p [] = (p = 0)"
| "chain h p (a # as) =
     (p = a \<and> a \<noteq> 0 \<and> (case h a of None \<Rightarrow> False | Some ob \<Rightarrow> chain h (next_ptr ob) as))"

text \<open>The Root Set: the entries of the stack below its depth.\<close>

definition roots :: "VM \<Rightarrow> addr set" where
  "roots vm = stack vm ` {i. i < stack_size vm}"

text \<open>The objects transitively reachable from a set of addresses through the
  \<^verbatim>\<open>head\<close> and \<^verbatim>\<open>tail\<close> of pairs.\<close>

inductive_set reach :: "heap \<Rightarrow> addr set \<Rightarrow> addr set" for h :: heap and R :: "addr set" where
  root: "a \<in> R \<Longrightarrow> a \<in> reach h R"
| via_head: "a \<in> reach h R \<Longrightarrow> h a = Some ob \<Longrightarrow> otype ob = OBJECT_TYPE_PAIR
             \<Longrightarrow> head ob \<in> reach h R"
| via_tail: "a \<in> reach h R \<Longrightarrow> h a = Some ob \<Longrightarrow> otype ob = OBJECT_TYPE_PAIR
             \<Longrightarrow> tail ob \<in> reach h R"

text \<open>\<^verbatim>\<open>malloc\<close> returns addresses aligned for \<^verbatim>\<open>struct sObject\<close>, which holds
  pointers: multiples of 8.\<close>

definition aligned :: "addr \<Rightarrow> bool" where
  "aligned a = (unat a mod 8 = 0)"

text \<open>A well-behaved \<^verbatim>\<open>malloc\<close>: it fails, or it returns an aligned address that is
  not allocated.\<close>

definition malloc_ok :: "allocator \<Rightarrow> bool" where
  "malloc_ok alloc = (\<forall>h. fst (alloc h) = 0 \<or> (h (fst (alloc h)) = None \<and> aligned (fst (alloc h))))"

text \<open>
  The states between two operations, with the list \<open>xs\<close> of the chained objects: the
  chain from \<^verbatim>\<open>first_object\<close> is \<open>xs\<close>, \<^verbatim>\<open>object_num\<close> is its length, every chained
  object is unmarked and aligned, a chained pair points at chained objects, and so does
  every entry of the Root Set.
\<close>

definition wf_state :: "VM \<Rightarrow> heap \<Rightarrow> addr list \<Rightarrow> bool" where
  "wf_state vm h xs =
     (chain h (first_object vm) xs \<and> distinct xs \<and> unat (object_num vm) = length xs \<and>
      (\<forall>a\<in>set xs. aligned a) \<and>
      (\<forall>a\<in>set xs. case h a of
           None \<Rightarrow> False
         | Some ob \<Rightarrow> mark ob = 0 \<and>
             (otype ob = OBJECT_TYPE_PAIR \<longrightarrow> head ob \<in> set xs \<and> tail ob \<in> set xs)) \<and>
      stack_size vm \<le> STACK_MAX \<and>
      (\<forall>i. i < stack_size vm \<longrightarrow> stack vm i \<in> set xs))"

text \<open>The states a program reaches through the public operations, from a new machine.
  The heap at the start is arbitrary, but for the null address: it holds whatever else the
  process has allocated.\<close>

inductive reachable :: "VM \<Rightarrow> heap \<Rightarrow> bool" where
  init: "new_vm (Some raw) = Inr vm \<Longrightarrow> h 0 = None \<Longrightarrow> reachable vm h"
| push_int: "reachable vm h \<Longrightarrow> malloc_ok alloc \<Longrightarrow>
             vm_push_int vm h alloc v = Inr (obj, vm', h') \<Longrightarrow> reachable vm' h'"
| push_pair: "reachable vm h \<Longrightarrow> malloc_ok alloc \<Longrightarrow>
              vm_push_pair vm h alloc = Inr (obj, vm', h') \<Longrightarrow> reachable vm' h'"
| pop: "reachable vm h \<Longrightarrow> vm_pop vm = Inr (obj, vm') \<Longrightarrow> reachable vm' h"
| collect: "reachable vm h \<Longrightarrow> gc vm h = Inr (vm', h') \<Longrightarrow> reachable vm' h'"

text \<open>The invariant of the counters \<^verbatim>\<open>object_num\<close> and \<^verbatim>\<open>object_max\<close>.\<close>

definition tinv :: "VM \<Rightarrow> bool" where
  "tinv vm =
     (2 \<le> object_max vm \<and> object_num vm \<le> object_max vm \<and>
      (object_num vm = 0 \<longrightarrow> object_max vm = GC_INITIAL_THRESHOLD))"

subsection \<open>Auxiliary notions for the proofs\<close>

text \<open>The heap with every mark cleared: the mark phase changes nothing else.\<close>

definition erase :: "heap \<Rightarrow> heap" where
  "erase h = (\<lambda>a. map_option (\<lambda>ob. ob\<lparr>mark := 0\<rparr>) (h a))"

definition succs :: "heap \<Rightarrow> addr \<Rightarrow> addr set" where
  "succs h a =
     (case h a of
        None \<Rightarrow> {}
      | Some ob \<Rightarrow> if otype ob = OBJECT_TYPE_PAIR then {head ob, tail ob} else {})"

definition closed_on :: "addr set \<Rightarrow> heap \<Rightarrow> bool" where
  "closed_on S h = (\<forall>a\<in>S. h a \<noteq> None \<and> succs h a \<subseteq> S)"

definition mark_post :: "heap \<Rightarrow> addr set \<Rightarrow> heap \<Rightarrow> bool" where
  "mark_post h R h' =
     (erase h' = erase h \<and> marked h \<subseteq> marked h' \<and> R \<subseteq> marked h' \<and>
      marked h' \<subseteq> marked h \<union> reach h R \<and>
      (\<forall>x\<in>marked h' - marked h. succs h x \<subseteq> marked h') \<and>
      (\<forall>x\<in>marked h. h' x = h x))"

definition link_sep :: "link \<Rightarrow> addr list \<Rightarrow> bool" where
  "link_sep l ys = (case l of FirstObject \<Rightarrow> True | NextField x \<Rightarrow> x \<notin> set ys)"

definition sweep_post :: "VM \<Rightarrow> heap \<Rightarrow> link \<Rightarrow> addr list \<Rightarrow> VM \<Rightarrow> heap \<Rightarrow> addr \<Rightarrow> bool" where
  "sweep_post vm h l ys vm' h' p' =
     (load_link vm' h' l = Inr p' \<and>
      chain h' p' (filter (\<lambda>a. a \<in> marked h) ys) \<and>
      vm' = vm\<lparr>first_object := first_object vm',
                object_num := object_num vm - of_nat (length (filter (\<lambda>a. a \<notin> marked h) ys))\<rparr> \<and>
      (l \<noteq> FirstObject \<longrightarrow> first_object vm' = first_object vm) \<and>
      (\<forall>a. a \<notin> set ys \<longrightarrow>
           (if l = NextField a then \<exists>ob. h a = Some ob \<and> h' a = Some (ob\<lparr>next_ptr := p'\<rparr>)
            else h' a = h a)) \<and>
      (\<forall>a\<in>set ys.
           if a \<in> marked h
           then \<exists>ob n. h a = Some ob \<and> h' a = Some (ob\<lparr>mark := 0, next_ptr := n\<rparr>)
           else h' a = None))"

text \<open>The effect of a collection cycle on a state whose chain is \<open>xs\<close>.\<close>

definition gc_post :: "VM \<Rightarrow> heap \<Rightarrow> addr list \<Rightarrow> VM \<Rightarrow> heap \<Rightarrow> bool" where
  "gc_post vm h xs vm' h' =
     (chain h' (first_object vm') (filter (\<lambda>a. a \<in> reach h (roots vm)) xs) \<and>
      vm' = vm\<lparr>first_object := first_object vm',
                object_num := of_nat (length (filter (\<lambda>a. a \<in> reach h (roots vm)) xs)),
                object_max := object_max vm'\<rparr> \<and>
      (\<forall>a. a \<notin> set xs \<longrightarrow> h' a = h a) \<and>
      (\<forall>a\<in>set xs.
           if a \<in> reach h (roots vm)
           then \<exists>ob n. h a = Some ob \<and> h' a = Some (ob\<lparr>next_ptr := n\<rparr>)
           else h' a = None))"

text \<open>What the collection that may precede an allocation keeps.\<close>

definition kept :: "VM \<Rightarrow> heap \<Rightarrow> addr list \<Rightarrow> VM \<Rightarrow> heap \<Rightarrow> addr list \<Rightarrow> bool" where
  "kept vm h xs vm1 h1 ks =
     (wf_state vm1 h1 ks \<and> stack vm1 = stack vm \<and> stack_size vm1 = stack_size vm \<and>
      set ks \<subseteq> set xs \<and>
      (\<forall>a\<in>set ks. \<exists>ob n. h a = Some ob \<and> h1 a = Some (ob\<lparr>next_ptr := n\<rparr>)))"

subsection \<open>Example states\<close>

text \<open>
  A state like the one \<^verbatim>\<open>test4\<close> builds: the pairs at 24 and 32 point at each other,
  the pair at 48 points at itself, and only the pair at 24 is on the stack, so the
  objects at 40 and 48 are garbage.
\<close>

definition ex_heap :: heap where
  "ex_heap = Map.empty
     (8 \<mapsto> \<lparr>mark = 0, next_ptr = 0, otype = OBJECT_TYPE_INT, ivalue = 1, head = 0, tail = 0\<rparr>,
      16 \<mapsto> \<lparr>mark = 0, next_ptr = 8, otype = OBJECT_TYPE_INT, ivalue = 2, head = 0, tail = 0\<rparr>,
      24 \<mapsto> \<lparr>mark = 0, next_ptr = 16, otype = OBJECT_TYPE_PAIR, ivalue = 0, head = 8, tail = 32\<rparr>,
      32 \<mapsto> \<lparr>mark = 0, next_ptr = 24, otype = OBJECT_TYPE_PAIR, ivalue = 0, head = 16, tail = 24\<rparr>,
      40 \<mapsto> \<lparr>mark = 0, next_ptr = 32, otype = OBJECT_TYPE_INT, ivalue = 5, head = 0, tail = 0\<rparr>,
      48 \<mapsto> \<lparr>mark = 0, next_ptr = 40, otype = OBJECT_TYPE_PAIR, ivalue = 0, head = 48, tail = 40\<rparr>)"

definition ex_vm :: VM where
  "ex_vm = \<lparr>first_object = 48, object_num = 6, object_max = 8, stack_size = 1,
            stack = (\<lambda>_. 0)(0 := 24)\<rparr>"

definition ex_chain :: "addr list" where
  "ex_chain = [48, 40, 32, 24, 16, 8]"

text \<open>An allocator that hands out the first free address of a pool, and fails when the
  pool is used up; \<open>raw_obj\<close> is what a fresh block holds.\<close>

definition raw_obj :: Object where
  "raw_obj = \<lparr>mark = 255, next_ptr = 0, otype = OBJECT_TYPE_INT, ivalue = 0, head = 0, tail = 0\<rparr>"

definition pool_alloc :: "addr list \<Rightarrow> Object \<Rightarrow> allocator" where
  "pool_alloc pool raw h =
     (case find (\<lambda>a. h a = None) pool of None \<Rightarrow> (0, raw) | Some a \<Rightarrow> (a, raw))"

definition test_alloc :: allocator where
  "test_alloc = pool_alloc [8, 16, 24, 32, 40, 48, 56] raw_obj"

text \<open>The state of \<^verbatim>\<open>test1\<close> before its call of \<^verbatim>\<open>gc\<close>: two integers, both on the
  stack.\<close>

definition test1_vm :: VM where
  "test1_vm = \<lparr>first_object = 16, object_num = 2, object_max = 8, stack_size = 2,
               stack = (\<lambda>_. 0)(0 := 8, 1 := 16)\<rparr>"

definition test1_heap :: heap where
  "test1_heap = Map.empty
     (8 \<mapsto> \<lparr>mark = 0, next_ptr = 0, otype = OBJECT_TYPE_INT, ivalue = 1, head = 0, tail = 0\<rparr>,
      16 \<mapsto> \<lparr>mark = 0, next_ptr = 8, otype = OBJECT_TYPE_INT, ivalue = 2, head = 0, tail = 0\<rparr>)"

text \<open>A state at its threshold: four objects, of which the two on the stack are the
  operands of the next pair and the other two are garbage.\<close>

definition pair_vm :: VM where
  "pair_vm = \<lparr>first_object = 32, object_num = 4, object_max = 4, stack_size = 2,
              stack = (\<lambda>_. 0)(0 := 8, 1 := 16)\<rparr>"

definition pair_heap :: heap where
  "pair_heap = Map.empty
     (8 \<mapsto> \<lparr>mark = 0, next_ptr = 0, otype = OBJECT_TYPE_INT, ivalue = 1, head = 0, tail = 0\<rparr>,
      16 \<mapsto> \<lparr>mark = 0, next_ptr = 8, otype = OBJECT_TYPE_INT, ivalue = 2, head = 0, tail = 0\<rparr>,
      24 \<mapsto> \<lparr>mark = 0, next_ptr = 16, otype = OBJECT_TYPE_INT, ivalue = 3, head = 0, tail = 0\<rparr>,
      32 \<mapsto> \<lparr>mark = 0, next_ptr = 24, otype = OBJECT_TYPE_INT, ivalue = 4, head = 0, tail = 0\<rparr>)"

section \<open>The sweep phase filters the chain\<close>

lemma chain_cong:
  "(\<And>b. b \<in> set xs \<Longrightarrow> h' b = h b) \<Longrightarrow> chain h' p xs = chain h p xs"
  by (induction xs arbitrary: p) (auto split: option.splits)

lemma chain_allocated: "chain h p xs \<Longrightarrow> a \<in> set xs \<Longrightarrow> \<exists>ob. h a = Some ob"
  by (induction xs arbitrary: p) (auto split: option.splits)

lemma chain_nonnull: "chain h p xs \<Longrightarrow> 0 \<notin> set xs"
  by (induction xs arbitrary: p) (auto split: option.splits)

lemma sweep_post_Nil:
  assumes "load_link vm h l = Inr 0"
  shows "sweep_post vm h l [] vm h 0"
  using assms
  by (auto simp: sweep_post_def load_link_def split: link.splits option.splits)

lemma marked_agree:
  "(\<And>b. b \<in> set as \<Longrightarrow> h2 b = h b) \<Longrightarrow>
   filter (\<lambda>b. b \<in> marked h2) as = filter (\<lambda>b. b \<in> marked h) as \<and>
   filter (\<lambda>b. b \<notin> marked h2) as = filter (\<lambda>b. b \<notin> marked h) as"
  by (auto intro!: filter_cong simp: marked_def)

lemma sweep_postD:
  assumes "sweep_post vm h l ys vm' h' p'"
  shows "load_link vm' h' l = Inr p'"
    and "chain h' p' (filter (\<lambda>a. a \<in> marked h) ys)"
    and "vm' = vm\<lparr>first_object := first_object vm',
                object_num := object_num vm - of_nat (length (filter (\<lambda>a. a \<notin> marked h) ys))\<rparr>"
    and "l \<noteq> FirstObject \<Longrightarrow> first_object vm' = first_object vm"
    and "\<And>a. a \<notin> set ys \<Longrightarrow>
           (if l = NextField a then \<exists>ob. h a = Some ob \<and> h' a = Some (ob\<lparr>next_ptr := p'\<rparr>)
            else h' a = h a)"
    and "\<And>a. a \<in> set ys \<Longrightarrow>
           (if a \<in> marked h
            then \<exists>ob n. h a = Some ob \<and> h' a = Some (ob\<lparr>mark := 0, next_ptr := n\<rparr>)
            else h' a = None)"
  using assms unfolding sweep_post_def by blast+

lemma sweep_post_free:
  assumes ld: "load_link vm h l = Inr a" and ha: "h a = Some ob" and m: "mark ob = 0"
    and st: "store_link vm h l (next_ptr ob) = Inr (vm1, h1)"
    and sep: "link_sep l (a # as)" and dist: "a \<notin> set as"
    and post: "sweep_post (vm1\<lparr>object_num := object_num vm1 - 1\<rparr>) (h1(a := None)) l as vm' h' p'"
  shows "sweep_post vm h l (a # as) vm' h' p'"
proof -
  let ?h2 = "h1(a := None)"
  have la: "l \<noteq> NextField a"
    using sep by (auto simp: link_sep_def)
  have vm1: "vm1\<lparr>first_object := q\<rparr> = vm\<lparr>first_object := q\<rparr>" for q
    using st by (auto simp: store_link_def split: link.splits option.splits)
  have fo: "l \<noteq> FirstObject \<Longrightarrow> vm1 = vm"
    using st by (auto simp: store_link_def split: link.splits option.splits)
  have h1: "h1 b = (if l = NextField b then map_option (\<lambda>o'. o'\<lparr>next_ptr := next_ptr ob\<rparr>) (h b) else h b)" for b
    using st by (auto simp: store_link_def split: link.splits option.splits)
  have agree: "h1 b = h b" if "b \<in> set as" for b
    using that sep by (auto simp: h1 link_sep_def)
  then have agree2: "?h2 b = h b" if "b \<in> set as" for b
    using that dist by auto
  have am: "a \<notin> marked h" using ha m by (simp add: marked_def)
  note f = marked_agree [of as ?h2 h, OF agree2, THEN conjunct1]
    marked_agree [of as ?h2 h, OF agree2, THEN conjunct2]
  note P = sweep_postD [OF post]
  note P1 = P(1)
  have P2: "chain h' p' (filter (\<lambda>a. a \<in> marked h) as)"
    using P(2) by (simp only: f)
  have P3: "vm' = vm1\<lparr>object_num := object_num vm1 - 1\<rparr>\<lparr>first_object := first_object vm',
                object_num := object_num (vm1\<lparr>object_num := object_num vm1 - 1\<rparr>)
                   - of_nat (length (filter (\<lambda>a. a \<notin> marked h) as))\<rparr>"
    using P(3) by (simp only: f)
  have P4: "l \<noteq> FirstObject \<longrightarrow> first_object vm' = first_object vm1"
    using P(4) by simp
  note P5 = P(5) and P6 = P(6)
  have mk: "(b \<in> marked ?h2) = (b \<in> marked h)" if "b \<in> set as" for b
    using agree2 [OF that] by (simp add: marked_def)
  have Q2: "chain h' p' (filter (\<lambda>a. a \<in> marked h) (a # as))"
    using P2 am by simp
  have "object_num vm1 = object_num vm"
    using st by (auto simp: store_link_def split: link.splits option.splits)
  then have Q3: "vm' = vm\<lparr>first_object := first_object vm',
                object_num := object_num vm - of_nat (length (filter (\<lambda>a. a \<notin> marked h) (a # as)))\<rparr>"
    using P3 am vm1 [of "first_object vm'"] 
    by (cases vm; cases vm1) (simp add: algebra_simps)
  have Q4: "l \<noteq> FirstObject \<longrightarrow> first_object vm' = first_object vm"
    using P4 fo by auto
  have Q5: "(if l = NextField b then \<exists>ob. h b = Some ob \<and> h' b = Some (ob\<lparr>next_ptr := p'\<rparr>)
            else h' b = h b)" if "b \<notin> set (a # as)" for b
  proof -
    from that have "b \<notin> set as" "b \<noteq> a" by auto
    with P5 [of b] show ?thesis
      by (auto simp: h1 split: if_splits)
  qed
  have Q6: "(if b \<in> marked h
            then \<exists>ob n. h b = Some ob \<and> h' b = Some (ob\<lparr>mark := 0, next_ptr := n\<rparr>)
            else h' b = None)" if "b \<in> set (a # as)" for b
  proof (cases "b = a")
    case True
    with P5 [of a] dist la am show ?thesis by simp
  next
    case False
    with that have bas: "b \<in> set as" by simp
    have "?h2 b = h b" by (rule agree2 [OF bas])
    with P6 [OF bas] mk [OF bas] show ?thesis by (simp only:)
  qed
  show ?thesis
    unfolding sweep_post_def using P1 Q2 Q3 Q4 Q5 Q6 by blast
qed

lemma sweep_post_keep:
  assumes ld: "load_link vm h l = Inr a" and ha: "h a = Some ob" and m: "mark ob \<noteq> 0"
    and sep: "link_sep l (a # as)" and dist: "a \<notin> set as" and nz: "a \<noteq> 0"
    and post: "sweep_post vm (h(a \<mapsto> ob\<lparr>mark := 0\<rparr>)) (NextField a) as vm' h' p'"
  shows "sweep_post vm h l (a # as) vm' h' a"
proof -
  let ?h2 = "h(a \<mapsto> ob\<lparr>mark := 0\<rparr>)"
  have la: "l \<noteq> NextField a"
    using sep by (auto simp: link_sep_def)
  have agree2: "?h2 b = h b" if "b \<in> set as" for b
    using that dist by auto
  have am: "a \<in> marked h" using ha m by (simp add: marked_def)
  note f = marked_agree [of as ?h2 h, OF agree2, THEN conjunct1]
    marked_agree [of as ?h2 h, OF agree2, THEN conjunct2]
  note P = sweep_postD [OF post]
  have P2: "chain h' p' (filter (\<lambda>a. a \<in> marked h) as)"
    using P(2) by (simp only: f)
  have P3: "vm' = vm\<lparr>first_object := first_object vm',
                object_num := object_num vm - of_nat (length (filter (\<lambda>a. a \<notin> marked h) as))\<rparr>"
    using P(3) by (simp only: f)
  have P4: "first_object vm' = first_object vm"
    using P(4) by simp
  have P5: "(if b = a then \<exists>ob. ?h2 b = Some ob \<and> h' b = Some (ob\<lparr>next_ptr := p'\<rparr>)
            else h' b = ?h2 b)" if "b \<notin> set as" for b
    using P(5) [OF that] by (auto split: if_splits)
  note P6 = P(6)
  have mk: "(b \<in> marked ?h2) = (b \<in> marked h)" if "b \<in> set as" for b
    using agree2 [OF that] by (simp add: marked_def)
  from P5 [of a] dist have h'a: "h' a = Some (ob\<lparr>mark := 0, next_ptr := p'\<rparr>)"
    by simp
  have Q1: "load_link vm' h' l = Inr a"
  proof (cases l)
    case FirstObject
    with ld P4 show ?thesis by (simp add: load_link_def)
  next
    case (NextField x)
    with sep la have "x \<notin> set as" "x \<noteq> a" by (auto simp: link_sep_def)
    with P5 [of x] have "h' x = h x" by simp
    with ld NextField show ?thesis by (simp add: load_link_def)
  qed
  have Q2: "chain h' a (filter (\<lambda>a. a \<in> marked h) (a # as))"
    using P2 am h'a nz by simp
  have Q3: "vm' = vm\<lparr>first_object := first_object vm',
                object_num := object_num vm - of_nat (length (filter (\<lambda>a. a \<notin> marked h) (a # as)))\<rparr>"
    using P3 am by simp
  have Q4: "l \<noteq> FirstObject \<longrightarrow> first_object vm' = first_object vm"
    using P4 by auto
  have Q5: "(if l = NextField b then \<exists>ob. h b = Some ob \<and> h' b = Some (ob\<lparr>next_ptr := a\<rparr>)
            else h' b = h b)" if "b \<notin> set (a # as)" for b
  proof -
    from that have b: "b \<notin> set as" "b \<noteq> a" by auto
    with P5 [of b] have "h' b = h b" by simp
    with ld show ?thesis
      by (auto simp: load_link_def split: option.splits)
  qed
  have Q6: "(if b \<in> marked h
            then \<exists>ob n. h b = Some ob \<and> h' b = Some (ob\<lparr>mark := 0, next_ptr := n\<rparr>)
            else h' b = None)" if "b \<in> set (a # as)" for b
  proof (cases "b = a")
    case True
    with h'a ha am show ?thesis by auto
  next
    case False
    with that have bas: "b \<in> set as" by simp
    have "?h2 b = h b" by (rule agree2 [OF bas])
    with P6 [OF bas] mk [OF bas] show ?thesis by (simp only:)
  qed
  show ?thesis
    unfolding sweep_post_def using Q1 Q2 Q3 Q4 Q5 Q6 by blast
qed

lemma store_link_ok:
  "load_link vm h l = Inr p \<Longrightarrow> \<exists>vm1 h1. store_link vm h l q = Inr (vm1, h1)"
  by (auto simp: load_link_def store_link_def split: link.splits option.splits)

lemma load_after_store:
  "store_link vm h l q = Inr (vm1, h1) \<Longrightarrow> link_sep l (a # as) \<Longrightarrow>
   load_link (vm1\<lparr>object_num := n\<rparr>) (h1(a := None)) l = Inr q"
  by (auto simp: load_link_def store_link_def link_sep_def split: link.splits option.splits)

lemma store_link_agree:
  "store_link vm h l q = Inr (vm1, h1) \<Longrightarrow> link_sep l (a # as) \<Longrightarrow> b \<in> set as \<Longrightarrow> h1 b = h b"
  by (auto simp: store_link_def link_sep_def split: link.splits option.splits)

lemma gc_sweep_loop_spec:
  "load_link vm h l = Inr p \<Longrightarrow> chain h p ys \<Longrightarrow> distinct ys \<Longrightarrow> link_sep l ys \<Longrightarrow>
   \<exists>vm' h' p'. gc_sweep_loop vm h l = Inr (vm', h') \<and> sweep_post vm h l ys vm' h' p'"
proof (induction ys arbitrary: vm h l p)
  case Nil
  then have p: "p = 0" by simp
  with Nil have "gc_sweep_loop vm h l = Inr (vm, h)"
    by (simp add: gc_sweep_loop.simps)
  moreover have "sweep_post vm h l [] vm h 0"
    using Nil p by (simp add: sweep_post_Nil)
  ultimately show ?case by blast
next
  case (Cons a as)
  from Cons.prems obtain ob where pa: "p = a" and nz: "a \<noteq> 0" and ha: "h a = Some ob"
    and ch: "chain h (next_ptr ob) as"
    by (auto split: option.splits)
  from Cons.prems have dist: "a \<notin> set as" "distinct as" by auto
  have ld: "load_link vm h l = Inr a" using Cons.prems pa by simp
  have sep: "link_sep l as"
    using Cons.prems by (auto simp: link_sep_def split: link.splits)
  show ?case
  proof (cases "mark ob = 0")
    case True
    obtain vm1 h1 where st: "store_link vm h l (next_ptr ob) = Inr (vm1, h1)"
      using store_link_ok [OF ld] by blast
    let ?vm2 = "vm1\<lparr>object_num := object_num vm1 - 1\<rparr>"
    let ?h2 = "h1(a := None)"
    have ld2: "load_link ?vm2 ?h2 l = Inr (next_ptr ob)"
      by (rule load_after_store [OF st Cons.prems(4)])
    have "chain ?h2 (next_ptr ob) as = chain h (next_ptr ob) as"
    proof (rule chain_cong)
      fix b assume b: "b \<in> set as"
      then have "h1 b = h b" by (rule store_link_agree [OF st Cons.prems(4)])
      with b dist show "?h2 b = h b" by auto
    qed
    with ch have ch2: "chain ?h2 (next_ptr ob) as" by simp
    from Cons.IH [OF ld2 ch2 dist(2) sep] obtain vm' h' p' where
      run: "gc_sweep_loop ?vm2 ?h2 l = Inr (vm', h')" and post: "sweep_post ?vm2 ?h2 l as vm' h' p'"
      by blast
    have "gc_sweep_loop vm h l = Inr (vm', h')"
      using ld nz ha True st run by (simp add: gc_sweep_loop.simps [of vm h l])
    moreover have "sweep_post vm h l (a # as) vm' h' p'"
      by (rule sweep_post_free [OF ld ha True st Cons.prems(4) dist(1) post])
    ultimately show ?thesis by blast
  next
    case False
    let ?h2 = "h(a \<mapsto> ob\<lparr>mark := 0\<rparr>)"
    have ld2: "load_link vm ?h2 (NextField a) = Inr (next_ptr ob)"
      by (simp add: load_link_def)
    have "chain ?h2 (next_ptr ob) as = chain h (next_ptr ob) as"
      by (rule chain_cong) (use dist in auto)
    with ch have ch2: "chain ?h2 (next_ptr ob) as" by simp
    have sep2: "link_sep (NextField a) as"
      using dist by (simp add: link_sep_def)
    from Cons.IH [OF ld2 ch2 dist(2) sep2] obtain vm' h' p' where
      run: "gc_sweep_loop vm ?h2 (NextField a) = Inr (vm', h')"
      and post: "sweep_post vm ?h2 (NextField a) as vm' h' p'"
      by blast
    have "gc_sweep_loop vm h l = Inr (vm', h')"
      using ld nz ha False run by (simp add: gc_sweep_loop.simps [of vm h l])
    moreover have "sweep_post vm h l (a # as) vm' h' a"
      by (rule sweep_post_keep [OF ld ha False Cons.prems(4) dist(1) nz post])
    ultimately show ?thesis by blast
  qed
qed

section \<open>The mark phase marks the reachable objects\<close>

lemma erase_lookup:
  assumes "erase h' = erase h" "h a = Some ob"
  shows "\<exists>m. h' a = Some (ob\<lparr>mark := m\<rparr>)"
proof -
  from assms have "map_option (\<lambda>ob. ob\<lparr>mark := 0\<rparr>) (h' a) = Some (ob\<lparr>mark := 0\<rparr>)"
    by (auto simp: erase_def dest: fun_cong [where x = a])
  then obtain ob' where h': "h' a = Some ob'" and e: "ob'\<lparr>mark := 0\<rparr> = ob\<lparr>mark := 0\<rparr>"
    by auto
  from e have "ob' = ob\<lparr>mark := mark ob'\<rparr>"
    by (cases ob; cases ob') simp
  with h' show ?thesis by metis
qed

lemma erase_None:
  assumes "erase h' = erase h" "h a = None"
  shows "h' a = None"
  using assms by (auto simp: erase_def dest: fun_cong [where x = a])

lemma erase_upd_mark: "h a = Some ob \<Longrightarrow> erase (h(a \<mapsto> ob\<lparr>mark := m\<rparr>)) = erase h"
  by (auto simp: erase_def)

lemma succs_erase:
  assumes "erase h' = erase h"
  shows "succs h' a = succs h a"
proof (cases "h a")
  case None
  with erase_None [OF assms] show ?thesis by (simp add: succs_def)
next
  case (Some ob)
  with erase_lookup [OF assms] obtain m where "h' a = Some (ob\<lparr>mark := m\<rparr>)" by blast
  with Some show ?thesis by (simp add: succs_def)
qed

lemma reach_succs: "a \<in> reach h R \<Longrightarrow> b \<in> succs h a \<Longrightarrow> b \<in> reach h R"
  by (auto simp: succs_def split: option.splits if_splits intro: reach.via_head reach.via_tail)

lemma reach_closedI:
  assumes "R \<subseteq> M" "\<And>a. a \<in> M \<Longrightarrow> a \<in> reach h R \<Longrightarrow> succs h a \<subseteq> M"
  shows "reach h R \<subseteq> M"
proof
  fix a assume "a \<in> reach h R"
  then show "a \<in> M"
  proof induction
    case (root a)
    with assms(1) show ?case by blast
  next
    case (via_head a ob)
    then have "head ob \<in> succs h a" by (simp add: succs_def)
    with via_head assms(2) show ?case by blast
  next
    case (via_tail a ob)
    then have "tail ob \<in> succs h a" by (simp add: succs_def)
    with via_tail assms(2) show ?case by blast
  qed
qed

lemma reach_mono_heap:
  assumes "\<And>a. succs h a \<subseteq> succs h' a"
  shows "reach h R \<subseteq> reach h' R"
  by (rule reach_closedI) (use assms in \<open>auto intro: reach.root reach_succs\<close>)

lemma reach_erase: "erase h' = erase h \<Longrightarrow> reach h' R = reach h R"
proof (rule equalityI)
  assume e: "erase h' = erase h"
  show "reach h' R \<subseteq> reach h R"
    by (rule reach_mono_heap) (simp only: succs_erase [OF e] subset_refl)
  show "reach h R \<subseteq> reach h' R"
    by (rule reach_mono_heap) (simp only: succs_erase [OF e] subset_refl)
qed

lemma reach_trans: "R' \<subseteq> reach h R \<Longrightarrow> reach h R' \<subseteq> reach h R"
  by (rule reach_closedI) (auto intro: reach_succs)

lemma closed_on_erase: "erase h' = erase h \<Longrightarrow> closed_on S h \<Longrightarrow> closed_on S h'"
  unfolding closed_on_def
proof
  fix a assume e: "erase h' = erase h" and c: "\<forall>a\<in>S. h a \<noteq> None \<and> succs h a \<subseteq> S" and a: "a \<in> S"
  from c a obtain ob where "h a = Some ob" by auto
  from erase_lookup [OF e this] have "h' a \<noteq> None" by auto
  moreover have "succs h' a \<subseteq> S" using c a succs_erase [OF e, of a] by simp
  ultimately show "h' a \<noteq> None \<and> succs h' a \<subseteq> S" by simp
qed

lemma reach_closed_on: "closed_on S h \<Longrightarrow> R \<subseteq> S \<Longrightarrow> reach h R \<subseteq> S"
  by (rule reach_closedI) (auto simp: closed_on_def)

lemma marked_upd:
  "h a = Some ob \<Longrightarrow> mark ob = 0 \<Longrightarrow> marked (h(a \<mapsto> ob\<lparr>mark := 1\<rparr>)) = insert a (marked h)"
  by (auto simp: marked_def)

lemma mark_post_refl: "R \<subseteq> marked h \<Longrightarrow> mark_post h R h"
  by (auto simp: mark_post_def)

lemma mark_postD:
  assumes "mark_post h R h'"
  shows "erase h' = erase h" and "marked h \<subseteq> marked h'" and "R \<subseteq> marked h'"
    and "marked h' \<subseteq> marked h \<union> reach h R"
    and "\<And>x. x \<in> marked h' \<Longrightarrow> x \<notin> marked h \<Longrightarrow> succs h x \<subseteq> marked h'"
    and "\<And>x. x \<in> marked h \<Longrightarrow> h' x = h x"
  using assms unfolding mark_post_def by blast+

lemma mark_postI:
  assumes "erase h' = erase h" and "marked h \<subseteq> marked h'" and "R \<subseteq> marked h'"
    and "marked h' \<subseteq> marked h \<union> reach h R"
    and "\<And>x. x \<in> marked h' \<Longrightarrow> x \<notin> marked h \<Longrightarrow> succs h x \<subseteq> marked h'"
    and "\<And>x. x \<in> marked h \<Longrightarrow> h' x = h x"
  shows "mark_post h R h'"
  using assms unfolding mark_post_def by blast

lemma mark_post_trans:
  assumes 1: "mark_post h R1 h1" and 2: "mark_post h1 R2 h2"
  shows "mark_post h (R1 \<union> R2) h2"
proof (rule mark_postI)
  note A = mark_postD [OF 1] and B = mark_postD [OF 2]
  have r: "reach h1 R2 = reach h R2" by (rule reach_erase [OF A(1)])
  have s: "succs h1 x = succs h x" for x by (rule succs_erase [OF A(1)])
  show "erase h2 = erase h" using A(1) B(1) by simp
  show "marked h \<subseteq> marked h2" using A(2) B(2) by blast
  show "R1 \<union> R2 \<subseteq> marked h2" using A(3) B(2) B(3) by blast
  have "reach h R1 \<subseteq> reach h (R1 \<union> R2)" "reach h R2 \<subseteq> reach h (R1 \<union> R2)"
    by (auto intro!: reach_trans intro: reach.root)
  then show "marked h2 \<subseteq> marked h \<union> reach h (R1 \<union> R2)"
    using A(4) B(4) unfolding r by blast
  show "succs h x \<subseteq> marked h2" if "x \<in> marked h2" "x \<notin> marked h" for x
  proof (cases "x \<in> marked h1")
    case True
    with A(5) [of x] that B(2) show ?thesis by blast
  next
    case False
    with B(5) [of x] that show ?thesis unfolding s by blast
  qed
  show "h2 x = h x" if "x \<in> marked h" for x
    using that A(2) A(6) [of x] B(6) [of x] by auto
qed

lemma gc_mark_spec:
  "closed_on S h \<Longrightarrow> obj \<in> S \<Longrightarrow> \<exists>h'. gc_mark h obj = Inr h' \<and> mark_post h {obj} h'"
proof (induction h obj rule: gc_mark.induct)
  case (1 h obj)
  from 1(3,4) obtain ob where ob: "h obj = Some ob" and sc: "succs h obj \<subseteq> S"
    by (auto simp: closed_on_def)
  show ?case
  proof (cases "mark ob \<noteq> 0")
    case True
    with ob have "gc_mark h obj = Inr h" by (simp add: gc_mark.simps [of h obj])
    moreover have "mark_post h {obj} h"
      using True ob by (intro mark_post_refl) (simp add: marked_def)
    ultimately show ?thesis by blast
  next
    case unm: False
    let ?h1 = "h(obj \<mapsto> ob\<lparr>mark := 1\<rparr>)"
    have e1: "erase ?h1 = erase h" using ob by (simp add: erase_upd_mark)
    have m1: "marked ?h1 = insert obj (marked h)"
      using ob unm by (simp add: marked_upd)
    have s1: "succs ?h1 x = succs h x" for x by (rule succs_erase [OF e1])
    have base: "mark_post h {obj} ?h1" if "succs h obj \<subseteq> marked ?h1"
    proof (rule mark_postI)
      show "erase ?h1 = erase h" by (rule e1)
      show "marked h \<subseteq> marked ?h1" "{obj} \<subseteq> marked ?h1" unfolding m1 by auto
      show "marked ?h1 \<subseteq> marked h \<union> reach h {obj}"
        unfolding m1 by (auto intro: reach.root)
      show "succs h x \<subseteq> marked ?h1" if "x \<in> marked ?h1" "x \<notin> marked h" for x
        using that \<open>succs h obj \<subseteq> marked ?h1\<close> unfolding m1 by auto
      show "?h1 x = h x" if "x \<in> marked h" for x
        using that ob unm by (auto simp: marked_def)
    qed
    show ?thesis
    proof (cases "otype ob = OBJECT_TYPE_PAIR")
      case False
      with ob unm have "gc_mark h obj = Inr ?h1" by (simp add: gc_mark.simps [of h obj])
      moreover have "succs h obj = {}" using ob False by (simp add: succs_def)
      then have "mark_post h {obj} ?h1" by (intro base) simp
      ultimately show ?thesis by blast
    next
      case pair: True
      have sobj: "succs h obj = {head ob, tail ob}" using ob pair by (simp add: succs_def)
      with sc have hd_S: "head ob \<in> S" and tl_S: "tail ob \<in> S" by auto
      have c1: "closed_on S ?h1" by (rule closed_on_erase [OF e1 1(3)])
      from 1(1) [OF ob unm pair c1 hd_S] obtain h2 where
        r1: "gc_mark ?h1 (head ob) = Inr h2" and p1: "mark_post ?h1 {head ob} h2"
        by blast
      from p1 have e2: "erase h2 = erase ?h1" by (simp add: mark_post_def)
      have "?h1 obj = Some (ob\<lparr>mark := 1\<rparr>)" by simp
      from erase_lookup [OF e2 this] obtain m where ob2: "h2 obj = Some (ob\<lparr>mark := 1, mark := m\<rparr>)"
        by auto
      have c2: "closed_on S h2" by (rule closed_on_erase [OF e2 c1])
      have tl2: "tail (ob\<lparr>mark := 1, mark := m\<rparr>) \<in> S" using tl_S by simp
      from 1(2) [OF ob unm pair r1 ob2 c2 tl2] obtain h' where
        r2: "gc_mark h2 (tail ob) = Inr h'" and p2: "mark_post h2 {tail ob} h'"
        by auto
      have run: "gc_mark h obj = Inr h'"
        using ob unm pair r1 ob2 r2 by (simp add: gc_mark.simps [of h obj])
      have p12: "mark_post ?h1 ({head ob} \<union> {tail ob}) h'"
        by (rule mark_post_trans [OF p1 p2])
      note A = mark_postD [OF p12]
      have sub: "reach h ({head ob} \<union> {tail ob}) \<subseteq> reach h {obj}"
        by (rule reach_trans) (use sobj in \<open>auto intro: reach_succs [OF reach.root]\<close>)
      have "mark_post h {obj} h'"
      proof (rule mark_postI)
        show "erase h' = erase h" using A(1) e1 by simp
        show "marked h \<subseteq> marked h'" "{obj} \<subseteq> marked h'" using A(2) unfolding m1 by auto
        show "marked h' \<subseteq> marked h \<union> reach h {obj}"
          using A(4) sub unfolding m1 reach_erase [OF e1] by (auto intro: reach.root)
        show "succs h x \<subseteq> marked h'" if "x \<in> marked h'" "x \<notin> marked h" for x
        proof (cases "x = obj")
          case True
          with A(3) sobj show ?thesis by auto
        next
          case False
          with A(5) [of x] that show ?thesis unfolding m1 s1 by auto
        qed
        show "h' x = h x" if "x \<in> marked h" for x
        proof -
          from that ob unm have "x \<noteq> obj" by (auto simp: marked_def)
          with A(6) [of x] that show ?thesis unfolding m1 by simp
        qed
      qed
      with run show ?thesis by blast
    qed
  qed
qed


section \<open>The collection cycle\<close>

lemma gc_mark_all_loop_spec:
  "closed_on S h \<Longrightarrow> (\<And>j. j < stack_size vm \<Longrightarrow> stack vm j \<in> S) \<Longrightarrow>
   stack_size vm \<le> STACK_MAX \<Longrightarrow>
   \<exists>h'. gc_mark_all_loop vm h i = Inr h' \<and>
        mark_post h (stack vm ` {j. i \<le> j \<and> j < stack_size vm}) h'"
proof (induction vm h i rule: gc_mark_all_loop.induct)
  case (1 vm h i)
  show ?case
  proof (cases "i < stack_size vm")
    case False
    then have "gc_mark_all_loop vm h i = Inr h"
      by (simp add: gc_mark_all_loop.simps [of vm h i])
    moreover from False have "{j. i \<le> j \<and> j < stack_size vm} = {}" by auto
    then have "stack vm ` {j. i \<le> j \<and> j < stack_size vm} \<subseteq> marked h"
      by (simp only: image_empty empty_subsetI)
    then have "mark_post h (stack vm ` {j. i \<le> j \<and> j < stack_size vm}) h"
      by (rule mark_post_refl)
    ultimately show ?thesis by blast
  next
    case True
    with 1(4) have lt: "i < STACK_MAX" by simp
    from gc_mark_spec [OF 1(2) 1(3) [OF True]] obtain h1 where
      r1: "gc_mark h (stack vm i) = Inr h1" and p1: "mark_post h {stack vm i} h1"
      by blast
    have c1: "closed_on S h1"
      by (rule closed_on_erase [OF mark_postD(1) [OF p1] 1(2)])
    from 1(1) [OF True lt r1 c1 1(3) 1(4)] obtain h' where
      r2: "gc_mark_all_loop vm h1 (i + 1) = Inr h'"
      and p2: "mark_post h1 (stack vm ` {j. i + 1 \<le> j \<and> j < stack_size vm}) h'"
      by blast
    have run: "gc_mark_all_loop vm h i = Inr h'"
      using True lt r1 r2 by (simp add: gc_mark_all_loop.simps [of vm h i])
    have "{j. i \<le> j \<and> j < stack_size vm} = insert i {j. i + 1 \<le> j \<and> j < stack_size vm}"
      using True by auto
    then have "stack vm ` {j. i \<le> j \<and> j < stack_size vm}
                 = {stack vm i} \<union> stack vm ` {j. i + 1 \<le> j \<and> j < stack_size vm}"
      by simp
    with mark_post_trans [OF p1 p2] run show ?thesis by simp
  qed
qed

lemma wf_state_closed: "wf_state vm h xs \<Longrightarrow> closed_on (set xs) h"
  unfolding wf_state_def closed_on_def succs_def
  by (auto split: option.splits)

lemma wf_state_unmarked: "wf_state vm h xs \<Longrightarrow> marked h \<inter> set xs = {}"
  unfolding wf_state_def marked_def
  by (auto split: option.splits)

lemma wf_state_roots: "wf_state vm h xs \<Longrightarrow> roots vm \<subseteq> set xs"
  unfolding wf_state_def roots_def by auto

lemma wf_state_reach: "wf_state vm h xs \<Longrightarrow> reach h (roots vm) \<subseteq> set xs"
  by (rule reach_closed_on [OF wf_state_closed wf_state_roots])

lemma gc_mark_all_spec:
  assumes wf: "wf_state vm h xs"
  shows "\<exists>h1. gc_mark_all vm h = Inr h1 \<and> erase h1 = erase h \<and>
              marked h1 \<inter> set xs = reach h (roots vm) \<and> (\<forall>a. a \<notin> set xs \<longrightarrow> h1 a = h a)"
proof -
  have c: "closed_on (set xs) h" by (rule wf_state_closed [OF wf])
  have st: "\<And>j. j < stack_size vm \<Longrightarrow> stack vm j \<in> set xs" "stack_size vm \<le> STACK_MAX"
    using wf by (auto simp: wf_state_def)
  from gc_mark_all_loop_spec [OF c st, of 0] obtain h1 where
    run: "gc_mark_all_loop vm h 0 = Inr h1"
    and post: "mark_post h (stack vm ` {j. 0 \<le> j \<and> j < stack_size vm}) h1"
    by blast
  have "stack vm ` {j. 0 \<le> j \<and> j < stack_size vm} = roots vm"
    by (simp add: roots_def)
  with post have post: "mark_post h (roots vm) h1" by simp
  note P = mark_postD [OF post]
  have um: "marked h \<inter> set xs = {}" by (rule wf_state_unmarked [OF wf])
  have rs: "reach h (roots vm) \<subseteq> set xs" by (rule wf_state_reach [OF wf])
  have "reach h (roots vm) \<subseteq> marked h1 \<inter> set xs"
  proof (rule reach_closedI)
    show "roots vm \<subseteq> marked h1 \<inter> set xs"
      using P(3) wf_state_roots [OF wf] by blast
  next
    fix a assume a: "a \<in> marked h1 \<inter> set xs"
    with um have "a \<notin> marked h" by blast
    with P(5) [of a] a have "succs h a \<subseteq> marked h1" by blast
    moreover from c a have "succs h a \<subseteq> set xs" by (auto simp: closed_on_def)
    ultimately show "succs h a \<subseteq> marked h1 \<inter> set xs" by blast
  qed
  moreover have "marked h1 \<inter> set xs \<subseteq> reach h (roots vm)"
    using P(4) um by blast
  ultimately have "marked h1 \<inter> set xs = reach h (roots vm)" by blast
  moreover have "h1 a = h a" if "a \<notin> set xs" for a
  proof (cases "a \<in> marked h")
    case True
    then show ?thesis by (rule P(6))
  next
    case False
    with that P(4) rs have n1: "a \<notin> marked h1" by blast
    show ?thesis
    proof (cases "h a")
      case None
      with erase_None [OF P(1)] show ?thesis by simp
    next
      case (Some ob)
      with erase_lookup [OF P(1)] obtain m where h1: "h1 a = Some (ob\<lparr>mark := m\<rparr>)" by blast
      from Some False have "mark ob = 0" by (simp add: marked_def)
      moreover from h1 n1 have "m = 0" by (simp add: marked_def)
      ultimately show ?thesis using h1 Some by simp
    qed
  qed
  ultimately show ?thesis using run P(1) by (simp add: gc_mark_all_def)
qed

lemma chain_erase: "erase h' = erase h \<Longrightarrow> chain h' p xs = chain h p xs"
proof (induction xs arbitrary: p)
  case Nil
  show ?case by simp
next
  case (Cons a as)
  show ?case
  proof (cases "h a")
    case None
    with erase_None [OF Cons.prems] show ?thesis by simp
  next
    case (Some ob)
    with erase_lookup [OF Cons.prems] obtain m where "h' a = Some (ob\<lparr>mark := m\<rparr>)" by blast
    with Some Cons.IH [OF Cons.prems] show ?thesis by simp
  qed
qed

lemma gc_postD:
  assumes "gc_post vm h xs vm' h'"
  shows "chain h' (first_object vm') (filter (\<lambda>a. a \<in> reach h (roots vm)) xs)"
    and "vm' = vm\<lparr>first_object := first_object vm',
                object_num := of_nat (length (filter (\<lambda>a. a \<in> reach h (roots vm)) xs)),
                object_max := object_max vm'\<rparr>"
    and "\<And>a. a \<notin> set xs \<Longrightarrow> h' a = h a"
    and "\<And>a. a \<in> set xs \<Longrightarrow> a \<in> reach h (roots vm) \<Longrightarrow>
           \<exists>ob n. h a = Some ob \<and> h' a = Some (ob\<lparr>next_ptr := n\<rparr>)"
    and "\<And>a. a \<in> set xs \<Longrightarrow> a \<notin> reach h (roots vm) \<Longrightarrow> h' a = None"
  using assms unfolding gc_post_def by (blast, blast, blast, metis, metis)

lemma wf_state_lookup:
  "wf_state vm h xs \<Longrightarrow> a \<in> set xs \<Longrightarrow>
   \<exists>ob. h a = Some ob \<and> mark ob = 0 \<and>
        (otype ob = OBJECT_TYPE_PAIR \<longrightarrow> head ob \<in> set xs \<and> tail ob \<in> set xs)"
  unfolding wf_state_def by (auto split: option.splits)

lemma object_num_after_sweep:
  fixes n :: size_t
  assumes "unat n = length xs"
  shows "n - of_nat (length (filter (\<lambda>a. \<not> P a) xs)) = of_nat (length (filter P xs))"
proof -
  have "n = of_nat (unat n)" by simp
  then have "n = of_nat (length xs)" using assms by simp
  also have "length xs = length (filter P xs) + length (filter (\<lambda>a. \<not> P a) xs)"
    by (simp add: sum_length_filter_compl)
  finally show ?thesis by simp
qed

lemma gc_zero:
  assumes wf: "wf_state vm h xs" and z: "object_num vm = 0"
  shows "gc vm h = Inr (vm, h)" and "xs = []" and "gc_post vm h xs vm h"
proof -
  show "gc vm h = Inr (vm, h)" using z by (simp add: gc_def)
  from wf z show xs: "xs = []" by (simp add: wf_state_def)
  from wf have "chain h (first_object vm) xs" by (simp add: wf_state_def)
  with xs z show "gc_post vm h xs vm h" by (simp add: gc_post_def)
qed

lemma gc_nonzero:
  assumes wf: "wf_state vm h xs" and nz: "object_num vm \<noteq> 0"
  shows "\<exists>vm2 h'. gc vm h = Inr (vm2\<lparr>object_max :=
                                (if object_num vm2 \<noteq> 0 then object_num vm2 * 2
                                 else GC_INITIAL_THRESHOLD)\<rparr>, h') \<and>
           gc_post vm h xs (vm2\<lparr>object_max :=
                                (if object_num vm2 \<noteq> 0 then object_num vm2 * 2
                                 else GC_INITIAL_THRESHOLD)\<rparr>) h'"
proof -
  let ?R = "reach h (roots vm)"
  from gc_mark_all_spec [OF wf] obtain h1 where
    m: "gc_mark_all vm h = Inr h1" and e: "erase h1 = erase h"
    and mk: "marked h1 \<inter> set xs = ?R" and fr: "\<And>a. a \<notin> set xs \<Longrightarrow> h1 a = h a"
    by blast
  have ch: "chain h1 (first_object vm) xs"
    using wf chain_erase [OF e] by (simp add: wf_state_def)
  have d: "distinct xs" using wf by (simp add: wf_state_def)
  have ld: "load_link vm h1 FirstObject = Inr (first_object vm)"
    by (simp add: load_link_def)
  have sep: "link_sep FirstObject xs" by (simp add: link_sep_def)
  from gc_sweep_loop_spec [OF ld ch d sep] obtain vm2 h2 p' where
    sw: "gc_sweep_loop vm h1 FirstObject = Inr (vm2, h2)"
    and post: "sweep_post vm h1 FirstObject xs vm2 h2 p'"
    by blast
  note P = sweep_postD [OF post]
  let ?vm' = "vm2\<lparr>object_max := (if object_num vm2 \<noteq> 0 then object_num vm2 * 2
                                    else GC_INITIAL_THRESHOLD)\<rparr>"
  have run: "gc vm h = Inr (?vm', h2)"
    using nz m sw by (simp add: gc_def gc_sweep_def)
  have f1: "filter (\<lambda>a. a \<in> marked h1) xs = filter (\<lambda>a. a \<in> ?R) xs"
    by (rule filter_cong) (use mk in auto)
  have f2: "filter (\<lambda>a. a \<notin> marked h1) xs = filter (\<lambda>a. \<not> a \<in> ?R) xs"
    by (rule filter_cong) (use mk in auto)
  have p': "first_object vm2 = p'" using P(1) by (simp add: load_link_def)
  have un: "unat (object_num vm) = length xs" using wf by (simp add: wf_state_def)
  have G1: "chain h2 (first_object ?vm') (filter (\<lambda>a. a \<in> ?R) xs)"
    using P(2) p' unfolding f1 by simp
  have "vm2 = vm\<lparr>first_object := first_object vm2,
                  object_num := of_nat (length (filter (\<lambda>a. a \<in> ?R) xs))\<rparr>"
    using P(3) unfolding f2 object_num_after_sweep [OF un] .
  then have G2: "?vm' = vm\<lparr>first_object := first_object ?vm',
                object_num := of_nat (length (filter (\<lambda>a. a \<in> ?R) xs)),
                object_max := object_max ?vm'\<rparr>"
    by (cases vm; cases vm2) simp
  have G3: "h2 a = h a" if "a \<notin> set xs" for a
    using P(5) [OF that] fr [OF that] by simp
  have G4: "\<exists>ob n. h a = Some ob \<and> h2 a = Some (ob\<lparr>next_ptr := n\<rparr>)"
    if a: "a \<in> set xs" "a \<in> ?R" for a
  proof -
    from wf_state_lookup [OF wf a(1)] obtain ob where ob: "h a = Some ob" "mark ob = 0"
      by blast
    from erase_lookup [OF e ob(1)] obtain m where h1: "h1 a = Some (ob\<lparr>mark := m\<rparr>)" by blast
    from a mk have "a \<in> marked h1" by blast
    with P(6) [OF a(1)] h1 obtain n where "h2 a = Some (ob\<lparr>mark := m, mark := 0, next_ptr := n\<rparr>)"
      by auto
    moreover have "ob\<lparr>mark := m, mark := 0, next_ptr := n\<rparr> = ob\<lparr>next_ptr := n\<rparr>"
      using ob(2) by (cases ob) simp
    ultimately show ?thesis using ob(1) by auto
  qed
  have G5: "h2 a = None" if a: "a \<in> set xs" "a \<notin> ?R" for a
  proof -
    from a mk have "a \<notin> marked h1" by blast
    with P(6) [OF a(1)] show ?thesis by simp
  qed
  have "gc_post vm h xs ?vm' h2"
    unfolding gc_post_def using G1 G2 G3 G4 G5 by auto
  with run show ?thesis by blast
qed

lemma gc_spec:
  assumes wf: "wf_state vm h xs"
  shows "\<exists>vm' h'. gc vm h = Inr (vm', h') \<and> gc_post vm h xs vm' h'"
proof (cases "object_num vm = 0")
  case True
  from gc_zero [OF wf True] show ?thesis by blast
next
  case False
  from gc_nonzero [OF wf False] show ?thesis by blast
qed

lemma aligned_bound:
  assumes d: "distinct xs" and al: "\<And>a. a \<in> set xs \<Longrightarrow> aligned a" and nz: "0 \<notin> set xs"
  shows "length xs < 2 ^ 61"
proof -
  let ?f = "\<lambda>a :: addr. unat a div 8"
  have inj: "inj_on ?f (set xs)"
  proof (rule inj_onI)
    fix a b assume a: "a \<in> set xs" and b: "b \<in> set xs" and eq: "?f a = ?f b"
    from al [OF a] al [OF b] have "unat a mod 8 = 0" "unat b mod 8 = 0"
      by (simp_all add: aligned_def)
    with eq have "unat a = unat b"
      by (metis div_mult_mod_eq)
    then show "a = b" by (rule word_unat_eq_iff [THEN iffD2])
  qed
  have img: "?f ` set xs \<subseteq> {1..<2 ^ 61}"
  proof
    fix n assume "n \<in> ?f ` set xs"
    then obtain a where a: "a \<in> set xs" and n: "n = unat a div 8" by blast
    from a nz have "a \<noteq> 0" by auto
    then have "unat a \<noteq> 0" by (simp add: unat_eq_0)
    moreover from al [OF a] have "unat a mod 8 = 0" by (simp add: aligned_def)
    ultimately have "1 \<le> unat a div 8" by presburger
    moreover have "unat a < 2 ^ 64" using unsigned_less [of a] by simp
    then have "unat a div 8 < 2 ^ 61" by simp
    ultimately show "n \<in> {1..<2 ^ 61}" using n by simp
  qed
  have "card (set xs) \<le> card {1::nat..<2 ^ 61}"
    by (rule card_inj_on_le [OF inj img]) simp
  then show ?thesis using d by (simp add: distinct_card)
qed

lemma wf_state_bound:
  assumes "wf_state vm h xs"
  shows "length xs < 2 ^ 61"
proof (rule aligned_bound)
  show "distinct xs" using assms by (simp add: wf_state_def)
  show "aligned a" if "a \<in> set xs" for a using assms that by (simp add: wf_state_def)
  show "0 \<notin> set xs" using assms chain_nonnull by (auto simp: wf_state_def)
qed

lemma unat_of_nat_len:
  "n < 2 ^ 61 \<Longrightarrow> unat (of_nat n :: size_t) = n"
  by (simp add: unat_of_nat)

lemma unat_double:
  "n < 2 ^ 61 \<Longrightarrow> unat (of_nat n * 2 :: size_t) = 2 * n"
  by (simp add: unat_word_ariths unat_of_nat)

lemma unat_succ:
  "n < 2 ^ 61 \<Longrightarrow> unat (of_nat n + 1 :: size_t) = n + 1"
  by (simp add: unat_word_ariths unat_of_nat)

lemma gc_post_vm:
  assumes "gc_post vm h xs vm' h'"
  shows "stack vm' = stack vm" and "stack_size vm' = stack_size vm" and "roots vm' = roots vm"
    and "object_num vm' = of_nat (length (filter (\<lambda>a. a \<in> reach h (roots vm)) xs))"
proof -
  from gc_postD(2) [OF assms] show s: "stack vm' = stack vm" and n: "stack_size vm' = stack_size vm"
    and "object_num vm' = of_nat (length (filter (\<lambda>a. a \<in> reach h (roots vm)) xs))"
    by (cases vm; cases vm'; simp)+
  then show "roots vm' = roots vm" by (simp add: roots_def)
qed

lemma gc_post_succs:
  assumes wf: "wf_state vm h xs" and post: "gc_post vm h xs vm' h'" and a: "a \<in> reach h (roots vm)"
  shows "succs h' a = succs h a"
proof -
  from a wf_state_reach [OF wf] have "a \<in> set xs" by blast
  from gc_postD(4) [OF post this a] show ?thesis by (auto simp: succs_def split: if_splits)
qed

lemma gc_post_reach:
  assumes wf: "wf_state vm h xs" and post: "gc_post vm h xs vm' h'"
  shows "reach h' (roots vm') = reach h (roots vm)"
proof -
  have r: "roots vm' = roots vm" by (rule gc_post_vm(3) [OF post])
  have "reach h (roots vm) \<subseteq> reach h' (roots vm)"
  proof (rule reach_closedI)
    show "roots vm \<subseteq> reach h' (roots vm)" by (auto intro: reach.root)
    fix a assume "a \<in> reach h' (roots vm)" "a \<in> reach h (roots vm)"
    then show "succs h a \<subseteq> reach h' (roots vm)"
      using gc_post_succs [OF wf post, of a] by (auto intro: reach_succs)
  qed
  moreover have "reach h' (roots vm) \<subseteq> reach h (roots vm)"
  proof (rule reach_closedI)
    show "roots vm \<subseteq> reach h (roots vm)" by (auto intro: reach.root)
    fix a assume "a \<in> reach h (roots vm)" "a \<in> reach h' (roots vm)"
    then show "succs h' a \<subseteq> reach h (roots vm)"
      using gc_post_succs [OF wf post, of a] by (auto intro: reach_succs)
  qed
  ultimately show ?thesis unfolding r by blast
qed

lemma gc_post_wf:
  assumes wf: "wf_state vm h xs" and post: "gc_post vm h xs vm' h'"
  shows "wf_state vm' h' (filter (\<lambda>a. a \<in> reach h (roots vm)) xs)"
proof -
  let ?R = "reach h (roots vm)"
  let ?ks = "filter (\<lambda>a. a \<in> ?R) xs"
  note V = gc_post_vm [OF post] and P = gc_postD [OF post]
  have len: "length ?ks < 2 ^ 61"
    using wf_state_bound [OF wf] length_filter_le [of "\<lambda>a. a \<in> ?R" xs] by linarith
  have 1: "chain h' (first_object vm') ?ks" by (rule P(1))
  have 2: "distinct ?ks" using wf by (simp add: wf_state_def)
  have 3: "unat (object_num vm') = length ?ks"
    unfolding V(4) by (rule unat_of_nat_len [OF len])
  have 4: "\<forall>a\<in>set ?ks. aligned a" using wf by (simp add: wf_state_def)
  have 5: "case h' a of None \<Rightarrow> False
           | Some ob \<Rightarrow> mark ob = 0 \<and>
               (otype ob = OBJECT_TYPE_PAIR \<longrightarrow> head ob \<in> set ?ks \<and> tail ob \<in> set ?ks)"
    if "a \<in> set ?ks" for a
  proof -
    from that have a: "a \<in> set xs" "a \<in> ?R" by auto
    from wf_state_lookup [OF wf a(1)] obtain ob where ob: "h a = Some ob" "mark ob = 0"
      "otype ob = OBJECT_TYPE_PAIR \<longrightarrow> head ob \<in> set xs \<and> tail ob \<in> set xs"
      by blast
    from P(4) [OF a] ob(1) obtain n where h': "h' a = Some (ob\<lparr>next_ptr := n\<rparr>)" by auto
    have "head ob \<in> ?R" "tail ob \<in> ?R" if "otype ob = OBJECT_TYPE_PAIR"
      using a(2) ob(1) that by (auto intro: reach.via_head reach.via_tail)
    with ob h' show ?thesis by simp
  qed
  have 6: "stack_size vm' \<le> STACK_MAX" using wf V(2) by (simp add: wf_state_def)
  have 7: "stack vm' i \<in> set ?ks" if "i < stack_size vm'" for i
  proof -
    from that V have "stack vm' i \<in> roots vm" by (auto simp: roots_def)
    then have "stack vm' i \<in> ?R" by (rule reach.root)
    with wf_state_reach [OF wf] show ?thesis by auto
  qed
  show ?thesis
    unfolding wf_state_def using 1 2 3 4 5 6 7 by blast
qed

lemma reach_card:
  assumes wf: "wf_state vm h xs"
  shows "set (filter (\<lambda>a. a \<in> reach h (roots vm)) xs) = reach h (roots vm)"
    and "length (filter (\<lambda>a. a \<in> reach h (roots vm)) xs) = card (reach h (roots vm))"
proof -
  show s: "set (filter (\<lambda>a. a \<in> reach h (roots vm)) xs) = reach h (roots vm)"
    using wf_state_reach [OF wf] by auto
  have "distinct (filter (\<lambda>a. a \<in> reach h (roots vm)) xs)"
    using wf by (simp add: wf_state_def)
  from distinct_card [OF this] s
  show "length (filter (\<lambda>a. a \<in> reach h (roots vm)) xs) = card (reach h (roots vm))"
    by simp
qed


lemma reach_empty: "reach h {} = {}"
proof -
  have "a \<in> reach h {} \<Longrightarrow> False" for a
    by (induction rule: reach.induct) auto
  then show ?thesis by blast
qed

lemma chain_same_links:
  "chain h p ks \<Longrightarrow> chain h' p' ks \<Longrightarrow>
   p = p' \<and> (\<forall>a\<in>set ks. \<forall>ob ob'. h a = Some ob \<longrightarrow> h' a = Some ob' \<longrightarrow> next_ptr ob = next_ptr ob')"
proof (induction ks arbitrary: p p')
  case Nil
  then show ?case by simp
next
  case (Cons b bs)
  from Cons.prems obtain ob ob' where b: "p = b" "p' = b" "h b = Some ob" "h' b = Some ob'"
    and c: "chain h (next_ptr ob) bs" "chain h' (next_ptr ob') bs"
    by (auto split: option.splits)
  from Cons.IH [OF c] b show ?case by auto
qed

lemma gc_threshold:
  assumes wf: "wf_state vm h xs" and run: "gc vm h = Inr (vm', h')" and nz: "object_num vm \<noteq> 0"
  shows "object_max vm' = (if object_num vm' \<noteq> 0 then object_num vm' * 2 else GC_INITIAL_THRESHOLD)"
proof -
  from gc_nonzero [OF wf nz] run show ?thesis by auto
qed

lemma gc_twice:
  assumes wf: "wf_state vm h xs" and run: "gc vm h = Inr (vm1, h1)"
  shows "gc vm1 h1 = Inr (vm1, h1)"
proof (cases "object_num vm1 = 0")
  case True
  then show ?thesis by (simp add: gc_def)
next
  case nz1: False
  let ?ks = "filter (\<lambda>a. a \<in> reach h (roots vm)) xs"
  from gc_spec [OF wf] run have post: "gc_post vm h xs vm1 h1" by auto
  have wf1: "wf_state vm1 h1 ?ks" by (rule gc_post_wf [OF wf post])
  have r1: "reach h1 (roots vm1) = reach h (roots vm)" by (rule gc_post_reach [OF wf post])
  have ks: "filter (\<lambda>a. a \<in> reach h1 (roots vm1)) ?ks = ?ks"
    unfolding r1 by simp
  have nz: "object_num vm \<noteq> 0"
  proof
    assume "object_num vm = 0"
    from gc_zero(1) [OF wf this] run nz1 this show False by simp
  qed
  have max1: "object_max vm1 = object_num vm1 * 2"
    using gc_threshold [OF wf run nz] nz1 by simp
  from gc_spec [OF wf1] obtain vm2 h2 where
    run2: "gc vm1 h1 = Inr (vm2, h2)" and post2: "gc_post vm1 h1 ?ks vm2 h2"
    by blast
  note P = gc_postD [OF post2, unfolded ks]
  have ch1: "chain h1 (first_object vm1) ?ks" by (rule gc_postD(1) [OF post])
  note L = chain_same_links [OF ch1 P(1)]
  have "h2 a = h1 a" for a
  proof (cases "a \<in> set ?ks")
    case False
    then show ?thesis by (rule P(3))
  next
    case True
    then have "a \<in> reach h1 (roots vm1)" unfolding r1 by simp
    from P(4) [OF True this] obtain ob n where ob: "h1 a = Some ob" "h2 a = Some (ob\<lparr>next_ptr := n\<rparr>)"
      by blast
    have "next_ptr ob = next_ptr (ob\<lparr>next_ptr := n\<rparr>)"
      by (rule L [THEN conjunct2, rule_format, OF True ob(1) ob(2)])
    then have "next_ptr ob = n" by simp
    with ob show ?thesis by simp
  qed
  then have h: "h2 = h1" by (rule ext)
  have max2: "object_max vm2 = object_num vm2 * 2"
    using gc_threshold [OF wf1 run2 nz1] gc_post_vm(4) [OF post2]
      gc_post_vm(4) [OF post] nz1 unfolding ks by simp
  have num2: "object_num vm2 = object_num vm1"
    using gc_post_vm(4) [OF post2] gc_post_vm(4) [OF post] unfolding ks by simp
  have first2: "first_object vm2 = first_object vm1"
    using L by simp
  have "vm2 = vm1"
    using P(2) first2 max1 max2 num2 by (cases vm1; cases vm2) simp
  with h run2 show ?thesis by simp
qed


section \<open>The mutator operations keep the states well formed\<close>

lemma keptD:
  assumes "kept vm h xs vm1 h1 ks"
  shows "wf_state vm1 h1 ks" and "stack vm1 = stack vm" and "stack_size vm1 = stack_size vm"
    and "set ks \<subseteq> set xs"
    and "\<And>a. a \<in> set ks \<Longrightarrow> \<exists>ob n. h a = Some ob \<and> h1 a = Some (ob\<lparr>next_ptr := n\<rparr>)"
  using assms unfolding kept_def by blast+

lemma kept_refl:
  assumes "wf_state vm h xs"
  shows "kept vm h xs vm h xs"
proof -
  have "\<exists>ob n. h a = Some ob \<and> h a = Some (ob\<lparr>next_ptr := n\<rparr>)" if "a \<in> set xs" for a
  proof -
    from wf_state_lookup [OF assms that] obtain ob where "h a = Some ob" by blast
    then have "h a = Some ob \<and> h a = Some (ob\<lparr>next_ptr := next_ptr ob\<rparr>)" by simp
    then show ?thesis by blast
  qed
  with assms show ?thesis unfolding kept_def by blast
qed

lemma gc_kept:
  assumes wf: "wf_state vm h xs" and post: "gc_post vm h xs vm' h'"
  shows "kept vm h xs vm' h' (filter (\<lambda>a. a \<in> reach h (roots vm)) xs)"
  unfolding kept_def
  using gc_post_wf [OF wf post] gc_post_vm(1,2) [OF post] gc_postD(4) [OF post]
  by auto

lemma gc_tinv:
  assumes wf: "wf_state vm h xs" and run: "gc vm h = Inr (vm', h')" and t: "tinv vm"
  shows "tinv vm'" and "object_num vm \<noteq> 0 \<Longrightarrow> object_num vm' < object_max vm'"
proof -
  have *: "tinv vm' \<and> object_num vm' < object_max vm'" if nz: "object_num vm \<noteq> 0"
  proof -
    from gc_spec [OF wf] run have post: "gc_post vm h xs vm' h'" by auto
    let ?k = "length (filter (\<lambda>a. a \<in> reach h (roots vm)) xs)"
    have len: "?k < 2 ^ 61"
      by (rule wf_state_bound [OF gc_post_wf [OF wf post]])
    have num: "object_num vm' = of_nat ?k" by (rule gc_post_vm(4) [OF post])
    have un: "unat (object_num vm') = ?k" unfolding num by (rule unat_of_nat_len [OF len])
    note mx = gc_threshold [OF wf run nz]
    show ?thesis
    proof (cases "object_num vm' = 0")
      case True
      with mx show ?thesis by (simp add: tinv_def GC_INITIAL_THRESHOLD_def)
    next
      case False
      have k: "0 < ?k"
      proof (rule ccontr)
        assume "\<not> 0 < ?k"
        then have "?k = 0" by simp
        with num False show False by simp
      qed
      from False mx have "object_max vm' = of_nat ?k * 2" by (simp add: num)
      then have um: "unat (object_max vm') = 2 * ?k" by (simp add: unat_double [OF len])
      have u2: "unat (2 :: size_t) = 2" by simp
      have "unat (2 :: size_t) \<le> unat (object_max vm')"
        "unat (object_num vm') \<le> unat (object_max vm')"
        "unat (object_num vm') < unat (object_max vm')"
        using k un um u2 by linarith+
      then have "2 \<le> object_max vm'" "object_num vm' \<le> object_max vm'"
        "object_num vm' < object_max vm'"
        by (simp_all only: word_le_nat_alt word_less_nat_alt)
      with False show ?thesis by (simp add: tinv_def)
    qed
  qed
  then show "object_num vm \<noteq> 0 \<Longrightarrow> object_num vm' < object_max vm'" by blast
  show "tinv vm'"
  proof (cases "object_num vm = 0")
    case True
    with run t show ?thesis by (simp add: gc_def)
  next
    case False
    with * show ?thesis by blast
  qed
qed

lemma maybe_gc_spec:
  assumes wf: "wf_state vm h xs"
  shows "\<exists>vm1 h1 ks.
           (if object_num vm = object_max vm then gc vm h else Inr (vm, h)) = Inr (vm1, h1) \<and>
           kept vm h xs vm1 h1 ks \<and>
           (tinv vm \<longrightarrow> object_num vm1 < object_max vm1 \<and> 2 \<le> object_max vm1)"
proof (cases "object_num vm = object_max vm")
  case False
  have "tinv vm \<longrightarrow> object_num vm < object_max vm \<and> 2 \<le> object_max vm"
    using False by (auto simp: tinv_def)
  with False kept_refl [OF wf] show ?thesis by auto
next
  case True
  from gc_spec [OF wf] obtain vm1 h1 where
    run: "gc vm h = Inr (vm1, h1)" and post: "gc_post vm h xs vm1 h1"
    by blast
  have "object_num vm1 < object_max vm1 \<and> 2 \<le> object_max vm1" if t: "tinv vm"
  proof -
    from t True have "object_num vm \<noteq> 0" by (auto simp: tinv_def)
    from gc_tinv(2) [OF wf run t this] gc_tinv(1) [OF wf run t] show ?thesis
      by (simp add: tinv_def)
  qed
  with True run gc_kept [OF wf post] show ?thesis by auto
qed

lemma new_object_spec:
  assumes wf: "wf_state vm h xs" and ok: "malloc_ok alloc"
  shows "new_object vm h alloc ty = Inl AllocationFailed \<or>
         (\<exists>obj raw vm1 h1 ks.
            kept vm h xs vm1 h1 ks \<and>
            (tinv vm \<longrightarrow> object_num vm1 < object_max vm1 \<and> 2 \<le> object_max vm1) \<and>
            obj \<noteq> 0 \<and> h1 obj = None \<and> aligned obj \<and>
            new_object vm h alloc ty =
              Inr (obj, vm1\<lparr>first_object := obj, object_num := object_num vm1 + 1\<rparr>,
                   h1(obj \<mapsto> raw\<lparr>mark := 0, otype := ty, next_ptr := first_object vm1\<rparr>)))"
proof -
  from maybe_gc_spec [OF wf] obtain vm1 h1 ks where
    g: "(if object_num vm = object_max vm then gc vm h else Inr (vm, h)) = Inr (vm1, h1)"
    and k: "kept vm h xs vm1 h1 ks"
    and t: "tinv vm \<longrightarrow> object_num vm1 < object_max vm1 \<and> 2 \<le> object_max vm1"
    by blast
  obtain obj raw where a: "alloc h1 = (obj, raw)" by (cases "alloc h1")
  show ?thesis
  proof (cases "obj = 0")
    case True
    with g a have "new_object vm h alloc ty = Inl AllocationFailed"
      by (simp add: new_object_def)
    then show ?thesis by blast
  next
    case False
    with ok a have fresh: "h1 obj = None" "aligned obj"
      unfolding malloc_ok_def by (metis fst_conv)+
    from g a False have "new_object vm h alloc ty =
        Inr (obj, vm1\<lparr>first_object := obj, object_num := object_num vm1 + 1\<rparr>,
             h1(obj \<mapsto> raw\<lparr>mark := 0, otype := ty, next_ptr := first_object vm1\<rparr>))"
      by (simp add: new_object_def)
    with k t False fresh show ?thesis by blast
  qed
qed

lemma wf_state_alloc:
  assumes wf: "wf_state vm1 h1 ks"
    and obj: "obj \<noteq> 0" "h1 obj = None" "aligned obj"
    and ob: "mark ob = 0" "next_ptr ob = first_object vm1"
      "otype ob = OBJECT_TYPE_PAIR \<Longrightarrow> head ob \<in> set (obj # ks) \<and> tail ob \<in> set (obj # ks)"
    and vm2: "first_object vm2 = obj" "object_num vm2 = object_num vm1 + 1"
      "stack_size vm2 \<le> STACK_MAX" "\<And>i. i < stack_size vm2 \<Longrightarrow> stack vm2 i \<in> set (obj # ks)"
  shows "wf_state vm2 (h1(obj \<mapsto> ob)) (obj # ks)"
proof -
  let ?h = "h1(obj \<mapsto> ob)"
  have ch1: "chain h1 (first_object vm1) ks" using wf by (simp add: wf_state_def)
  have notin: "obj \<notin> set ks"
    using chain_allocated [OF ch1, of obj] obj(2) by auto
  have "chain ?h (first_object vm1) ks = chain h1 (first_object vm1) ks"
    by (rule chain_cong) (use notin in auto)
  with ch1 have 1: "chain ?h (first_object vm2) (obj # ks)"
    using obj(1) ob(2) vm2(1) by simp
  have 2: "distinct (obj # ks)" using wf notin by (simp add: wf_state_def)
  have al: "\<And>a. a \<in> set (obj # ks) \<Longrightarrow> aligned a"
    using wf obj(3) by (auto simp: wf_state_def)
  have nz: "0 \<notin> set (obj # ks)" using chain_nonnull [OF ch1] obj(1) by auto
  have len: "length ks + 1 < 2 ^ 61"
    using aligned_bound [OF 2 al nz] by simp
  have "object_num vm1 = of_nat (unat (object_num vm1))" by simp
  also have "unat (object_num vm1) = length ks" using wf by (simp add: wf_state_def)
  finally have "object_num vm2 = of_nat (length ks) + 1" using vm2(2) by simp
  moreover have "length ks < 2 ^ 61" using len by simp
  ultimately have 3: "unat (object_num vm2) = length (obj # ks)"
    by (simp add: unat_succ)
  have 5: "case ?h a of None \<Rightarrow> False
           | Some ob \<Rightarrow> mark ob = 0 \<and>
               (otype ob = OBJECT_TYPE_PAIR \<longrightarrow>
                  head ob \<in> set (obj # ks) \<and> tail ob \<in> set (obj # ks))"
    if "a \<in> set (obj # ks)" for a
  proof (cases "a = obj")
    case True
    with ob show ?thesis by simp
  next
    case False
    with that have a: "a \<in> set ks" by simp
    from wf_state_lookup [OF wf a] False show ?thesis by auto
  qed
  show ?thesis
    unfolding wf_state_def using 1 2 3 al 5 vm2(3,4) by blast
qed

lemma tinv_alloc:
  assumes "object_num vm1 < object_max vm1" "2 \<le> object_max vm1"
    and "object_num vm2 = object_num vm1 + 1" "object_max vm2 = object_max vm1"
  shows "tinv vm2"
proof -
  from assms(1) have lt: "unat (object_num vm1) < unat (object_max vm1)"
    by (simp add: word_less_nat_alt)
  have "unat (object_max vm1) < 2 ^ 64" using unsigned_less [of "object_max vm1"] by simp
  with lt have "unat (object_num vm1) + unat (1 :: size_t) < 2 ^ LENGTH(64)" by simp
  then have "unat (object_num vm1 + 1) = unat (object_num vm1) + unat (1 :: size_t)"
    by (simp only: unat_add_lem)
  then have u: "unat (object_num vm2) = unat (object_num vm1) + 1"
    using assms(3) by simp
  with lt have "unat (object_num vm2) \<le> unat (object_max vm2)" using assms(4) by simp
  then have "object_num vm2 \<le> object_max vm2" by (simp only: word_le_nat_alt)
  moreover from u have "object_num vm2 \<noteq> 0" by (metis Suc_eq_plus1 nat.distinct(1) unat_0)
  ultimately show ?thesis using assms(2,4) by (simp add: tinv_def)
qed

lemma vm_push_int_spec:
  assumes wf: "wf_state vm h xs" and ok: "malloc_ok alloc"
    and run: "vm_push_int vm h alloc v = Inr (obj, vm', h')"
  shows "\<exists>ks. wf_state vm' h' (obj # ks) \<and> (tinv vm \<longrightarrow> tinv vm')"
proof -
  from run have "new_object vm h alloc OBJECT_TYPE_INT \<noteq> Inl AllocationFailed"
    by (auto simp: vm_push_int_def Let_def)
  with new_object_spec [OF wf ok, of OBJECT_TYPE_INT] obtain obj' raw vm1 h1 ks where
    k: "kept vm h xs vm1 h1 ks"
    and t: "tinv vm \<longrightarrow> object_num vm1 < object_max vm1 \<and> 2 \<le> object_max vm1"
    and fresh: "obj' \<noteq> 0" "h1 obj' = None" "aligned obj'"
    and new: "new_object vm h alloc OBJECT_TYPE_INT =
              Inr (obj', vm1\<lparr>first_object := obj', object_num := object_num vm1 + 1\<rparr>,
                   h1(obj' \<mapsto> raw\<lparr>mark := 0, otype := OBJECT_TYPE_INT,
                                   next_ptr := first_object vm1\<rparr>))"
    by blast
  note K = keptD [OF k]
  let ?ob = "raw\<lparr>mark := 0, otype := OBJECT_TYPE_INT, next_ptr := first_object vm1, ivalue := v\<rparr>"
  from run new have lt: "stack_size vm1 < STACK_MAX"
    by (auto simp: vm_push_int_def vm_push_def Let_def split: if_splits)
  from run new lt have res: "obj = obj'"
    "vm' = vm1\<lparr>first_object := obj', object_num := object_num vm1 + 1,
                stack := (stack vm1)(stack_size vm1 := obj'),
                stack_size := stack_size vm1 + 1\<rparr>"
    "h' = h1(obj' \<mapsto> ?ob)"
    by (auto simp: vm_push_int_def vm_push_def Let_def)
  have st: "stack vm1 i \<in> set ks" if "i < stack_size vm1" for i
    using K(1) that by (simp add: wf_state_def)
  have "wf_state vm' h' (obj' # ks)"
    unfolding res(3)
  proof (rule wf_state_alloc [OF K(1) fresh])
    show "stack_size vm' \<le> STACK_MAX" using lt by (simp add: res(2))
    show "stack vm' i \<in> set (obj' # ks)" if "i < stack_size vm'" for i
      using that st [of i] by (auto simp: res(2))
  qed (simp_all add: res(2))
  moreover have "tinv vm'" if "tinv vm"
    by (rule tinv_alloc [of vm1]) (use t that in \<open>simp_all add: res(2)\<close>)
  ultimately show ?thesis using res(1) by blast
qed

lemma vm_push_pair_after_new:
  assumes new: "new_object vm h alloc OBJECT_TYPE_PAIR = Inr (obj, vmA, hA)"
    and ob: "hA obj = Some ob" and sz: "stack_size vmA \<le> STACK_MAX"
  shows "vm_push_pair vm h alloc =
           (if stack_size vmA < 2 then Inl StackUnderflow
            else Inr (obj,
                      vmA\<lparr>stack := (stack vmA)(stack_size vmA - 2 := obj),
                          stack_size := stack_size vmA - 1\<rparr>,
                      hA(obj \<mapsto> ob\<lparr>tail := stack vmA (stack_size vmA - 1),
                                     head := stack vmA (stack_size vmA - 2)\<rparr>)))"
proof -
  let ?n = "stack_size vmA"
  have pop0: "vm_pop v = Inl StackUnderflow" if "stack_size v = 0" for v
    using that by (simp add: vm_pop_def)
  have pop1: "vm_pop v = Inr (stack v (stack_size v - 1), v\<lparr>stack_size := stack_size v - 1\<rparr>)"
    if "0 < stack_size v" "stack_size v \<le> STACK_MAX" for v
    using that by (simp add: vm_pop_def Let_def)
  have unf: "vm_push_pair vm h alloc =
      (case vm_pop vmA of
         Inl e \<Rightarrow> Inl e
       | Inr (t, vm2) \<Rightarrow>
           (case vm_pop vm2 of
              Inl e \<Rightarrow> Inl e
            | Inr (hp, vm3) \<Rightarrow>
                (case vm_push vm3 obj of
                   Inl e \<Rightarrow> Inl e
                 | Inr vm4 \<Rightarrow> Inr (obj, vm4, hA(obj \<mapsto> ob\<lparr>tail := t, head := hp\<rparr>)))))"
    using new ob by (simp add: vm_push_pair_def Let_def split: sum.splits prod.splits)
  consider "?n = 0" | "?n = 1" | "2 \<le> ?n" by linarith
  then show ?thesis
  proof cases
    case 1
    then show ?thesis unfolding unf by (simp add: pop0)
  next
    case 2
    then have "vm_pop vmA = Inr (stack vmA 0, vmA\<lparr>stack_size := 0\<rparr>)"
      using pop1 [of vmA] sz by simp
    moreover have "vm_pop (vmA\<lparr>stack_size := 0\<rparr>) = Inl StackUnderflow"
      by (rule pop0) simp
    ultimately show ?thesis unfolding unf using 2 by simp
  next
    case 3
    then have p1: "vm_pop vmA = Inr (stack vmA (?n - 1), vmA\<lparr>stack_size := ?n - 1\<rparr>)"
      using pop1 [of vmA] sz by simp
    have p2: "vm_pop (vmA\<lparr>stack_size := ?n - 1\<rparr>)
                = Inr (stack vmA (?n - 2), vmA\<lparr>stack_size := ?n - 2\<rparr>)"
      using pop1 [of "vmA\<lparr>stack_size := ?n - 1\<rparr>"] 3 sz
      by (simp add: diff_diff_eq numeral_2_eq_2)
    have lt: "?n - 2 < STACK_MAX" using 3 sz by linarith
    have s: "Suc (?n - 2) = ?n - 1" using 3 by linarith
    have p3: "vm_push (vmA\<lparr>stack_size := ?n - 2\<rparr>) obj
                = Inr (vmA\<lparr>stack := (stack vmA)(?n - 2 := obj), stack_size := ?n - 1\<rparr>)"
      using lt s by (simp add: vm_push_def)
    from 3 have nlt: "(?n < 2) = False" by simp
    show ?thesis by (simp only: unf p1 p2 p3 sum.case prod.case nlt if_False)
  qed
qed

lemma vm_push_pair_result:
  assumes wf: "wf_state vm h xs" and ok: "malloc_ok alloc"
  shows "vm_push_pair vm h alloc = Inl AllocationFailed \<or>
         (stack_size vm < 2 \<and> vm_push_pair vm h alloc = Inl StackUnderflow) \<or>
         (2 \<le> stack_size vm \<and>
          (\<exists>obj raw vm1 h1 ks.
            kept vm h xs vm1 h1 ks \<and>
            (tinv vm \<longrightarrow> object_num vm1 < object_max vm1 \<and> 2 \<le> object_max vm1) \<and>
            obj \<noteq> 0 \<and> h1 obj = None \<and> aligned obj \<and>
            vm_push_pair vm h alloc =
              Inr (obj,
                   vm1\<lparr>first_object := obj, object_num := object_num vm1 + 1,
                       stack := (stack vm)(stack_size vm - 2 := obj),
                       stack_size := stack_size vm - 1\<rparr>,
                   h1(obj \<mapsto> raw\<lparr>mark := 0, otype := OBJECT_TYPE_PAIR,
                                  next_ptr := first_object vm1,
                                  tail := stack vm (stack_size vm - 1),
                                  head := stack vm (stack_size vm - 2)\<rparr>))))"
proof (cases "new_object vm h alloc OBJECT_TYPE_PAIR = Inl AllocationFailed")
  case True
  then show ?thesis by (simp add: vm_push_pair_def)
next
  case False
  with new_object_spec [OF wf ok, of OBJECT_TYPE_PAIR] obtain obj raw vm1 h1 ks where
    k: "kept vm h xs vm1 h1 ks"
    and t: "tinv vm \<longrightarrow> object_num vm1 < object_max vm1 \<and> 2 \<le> object_max vm1"
    and fresh: "obj \<noteq> 0" "h1 obj = None" "aligned obj"
    and new: "new_object vm h alloc OBJECT_TYPE_PAIR =
              Inr (obj, vm1\<lparr>first_object := obj, object_num := object_num vm1 + 1\<rparr>,
                   h1(obj \<mapsto> raw\<lparr>mark := 0, otype := OBJECT_TYPE_PAIR,
                                  next_ptr := first_object vm1\<rparr>))"
    by blast
  note K = keptD [OF k]
  let ?vmA = "vm1\<lparr>first_object := obj, object_num := object_num vm1 + 1\<rparr>"
  let ?ob = "raw\<lparr>mark := 0, otype := OBJECT_TYPE_PAIR, next_ptr := first_object vm1\<rparr>"
  let ?hA = "h1(obj \<mapsto> ?ob)"
  have sz: "stack_size ?vmA \<le> STACK_MAX" using K(1) by (simp add: wf_state_def)
  have obA: "?hA obj = Some ?ob" by simp
  note R = vm_push_pair_after_new [OF new obA sz]
  show ?thesis
  proof (cases "stack_size vm < 2")
    case True
    with R K(3) show ?thesis by simp
  next
    case False
    with R K(2,3) have "vm_push_pair vm h alloc =
              Inr (obj,
                   vm1\<lparr>first_object := obj, object_num := object_num vm1 + 1,
                       stack := (stack vm)(stack_size vm - 2 := obj),
                       stack_size := stack_size vm - 1\<rparr>,
                   h1(obj \<mapsto> raw\<lparr>mark := 0, otype := OBJECT_TYPE_PAIR,
                                  next_ptr := first_object vm1,
                                  tail := stack vm (stack_size vm - 1),
                                  head := stack vm (stack_size vm - 2)\<rparr>))"
      by simp
    moreover from False have "2 \<le> stack_size vm" by simp
    ultimately show ?thesis using k t fresh by blast
  qed
qed

lemma vm_push_pair_exact:
  assumes wf: "wf_state vm h xs" and ok: "malloc_ok alloc" and two: "2 \<le> stack_size vm"
  shows "\<exists>vm1 h1 ks.
           (if object_num vm = object_max vm then gc vm h else Inr (vm, h)) = Inr (vm1, h1) \<and>
           kept vm h xs vm1 h1 ks \<and>
           (fst (alloc h1) = 0 \<longrightarrow> vm_push_pair vm h alloc = Inl AllocationFailed) \<and>
           (fst (alloc h1) \<noteq> 0 \<longrightarrow>
              h1 (fst (alloc h1)) = None \<and>
              vm_push_pair vm h alloc =
                Inr (fst (alloc h1),
                     vm1\<lparr>first_object := fst (alloc h1), object_num := object_num vm1 + 1,
                         stack := (stack vm)(stack_size vm - 2 := fst (alloc h1)),
                         stack_size := stack_size vm - 1\<rparr>,
                     h1(fst (alloc h1) \<mapsto>
                          (snd (alloc h1))\<lparr>mark := 0, otype := OBJECT_TYPE_PAIR,
                                            next_ptr := first_object vm1,
                                            tail := stack vm (stack_size vm - 1),
                                            head := stack vm (stack_size vm - 2)\<rparr>)))"
proof -
  from maybe_gc_spec [OF wf] obtain vm1 h1 ks where
    g: "(if object_num vm = object_max vm then gc vm h else Inr (vm, h)) = Inr (vm1, h1)"
    and k: "kept vm h xs vm1 h1 ks"
    by blast
  note K = keptD [OF k]
  let ?obj = "fst (alloc h1)"
  let ?raw = "snd (alloc h1)"
  have a: "alloc h1 = (?obj, ?raw)" by simp
  have fail: "vm_push_pair vm h alloc = Inl AllocationFailed" if "?obj = 0"
  proof -
    from g a that have "new_object vm h alloc OBJECT_TYPE_PAIR = Inl AllocationFailed"
      by (simp add: new_object_def split_beta)
    then show ?thesis by (simp add: vm_push_pair_def)
  qed
  have succ: "h1 ?obj = None \<and>
              vm_push_pair vm h alloc =
                Inr (?obj,
                     vm1\<lparr>first_object := ?obj, object_num := object_num vm1 + 1,
                         stack := (stack vm)(stack_size vm - 2 := ?obj),
                         stack_size := stack_size vm - 1\<rparr>,
                     h1(?obj \<mapsto>
                          ?raw\<lparr>mark := 0, otype := OBJECT_TYPE_PAIR,
                                 next_ptr := first_object vm1,
                                 tail := stack vm (stack_size vm - 1),
                                 head := stack vm (stack_size vm - 2)\<rparr>))"
    if nz: "?obj \<noteq> 0"
  proof -
    from ok nz have fresh: "h1 ?obj = None"
      unfolding malloc_ok_def by blast
    let ?vmA = "vm1\<lparr>first_object := ?obj, object_num := object_num vm1 + 1\<rparr>"
    let ?ob = "?raw\<lparr>mark := 0, otype := OBJECT_TYPE_PAIR, next_ptr := first_object vm1\<rparr>"
    let ?hA = "h1(?obj \<mapsto> ?ob)"
    from g nz have new: "new_object vm h alloc OBJECT_TYPE_PAIR = Inr (?obj, ?vmA, ?hA)"
      by (simp add: new_object_def split_beta)
    have sz: "stack_size ?vmA \<le> STACK_MAX" using K(1) by (simp add: wf_state_def)
    have obA: "?hA ?obj = Some ?ob" by simp
    from two K(3) have nlt: "\<not> stack_size ?vmA < 2" by simp
    from vm_push_pair_after_new [OF new obA sz] nlt K(2,3)
    have "vm_push_pair vm h alloc =
                Inr (?obj,
                     vm1\<lparr>first_object := ?obj, object_num := object_num vm1 + 1,
                         stack := (stack vm)(stack_size vm - 2 := ?obj),
                         stack_size := stack_size vm - 1\<rparr>,
                     h1(?obj \<mapsto>
                          ?raw\<lparr>mark := 0, otype := OBJECT_TYPE_PAIR,
                                 next_ptr := first_object vm1,
                                 tail := stack vm (stack_size vm - 1),
                                 head := stack vm (stack_size vm - 2)\<rparr>))"
      by simp
    with fresh show ?thesis by simp
  qed
  from g k fail succ show ?thesis by blast
qed

lemma vm_push_pair_spec:
  assumes wf: "wf_state vm h xs" and ok: "malloc_ok alloc"
    and run: "vm_push_pair vm h alloc = Inr (obj, vm', h')"
  shows "\<exists>ks. wf_state vm' h' (obj # ks) \<and> (tinv vm \<longrightarrow> tinv vm')"
proof -
  from vm_push_pair_result [OF wf ok] run obtain raw vm1 h1 ks where
    two: "2 \<le> stack_size vm"
    and k: "kept vm h xs vm1 h1 ks"
    and t: "tinv vm \<longrightarrow> object_num vm1 < object_max vm1 \<and> 2 \<le> object_max vm1"
    and fresh: "obj \<noteq> 0" "h1 obj = None" "aligned obj"
    and vm': "vm' = vm1\<lparr>first_object := obj, object_num := object_num vm1 + 1,
                       stack := (stack vm)(stack_size vm - 2 := obj),
                       stack_size := stack_size vm - 1\<rparr>"
    and h': "h' = h1(obj \<mapsto> raw\<lparr>mark := 0, otype := OBJECT_TYPE_PAIR,
                                  next_ptr := first_object vm1,
                                  tail := stack vm (stack_size vm - 1),
                                  head := stack vm (stack_size vm - 2)\<rparr>)"
    by auto
  note K = keptD [OF k]
  have st: "stack vm i \<in> set ks" if "i < stack_size vm" for i
    using K(1) that unfolding K(2) [symmetric] K(3) [symmetric] by (simp add: wf_state_def)
  have sz: "stack_size vm \<le> STACK_MAX"
    using K(1) unfolding K(3) [symmetric] by (simp add: wf_state_def)
  have "wf_state vm' h' (obj # ks)"
    unfolding h'
  proof (rule wf_state_alloc [OF K(1) fresh])
    show "stack_size vm' \<le> STACK_MAX" using sz by (simp add: vm')
    show "stack vm' i \<in> set (obj # ks)" if "i < stack_size vm'" for i
      using that st [of i] by (auto simp: vm')
    show "head (raw\<lparr>mark := 0, otype := OBJECT_TYPE_PAIR, next_ptr := first_object vm1,
                  tail := stack vm (stack_size vm - 1),
                  head := stack vm (stack_size vm - 2)\<rparr>) \<in> set (obj # ks) \<and>
          tail (raw\<lparr>mark := 0, otype := OBJECT_TYPE_PAIR, next_ptr := first_object vm1,
                  tail := stack vm (stack_size vm - 1),
                  head := stack vm (stack_size vm - 2)\<rparr>) \<in> set (obj # ks)"
      using two st [of "stack_size vm - 1"] st [of "stack_size vm - 2"] by simp
  qed (simp_all add: vm')
  moreover have "tinv vm'" if "tinv vm"
    by (rule tinv_alloc [of vm1]) (use t that in \<open>simp_all add: vm'\<close>)
  ultimately show ?thesis by blast
qed

lemma reachable_inv:
  "reachable vm h \<Longrightarrow> (\<exists>xs. wf_state vm h xs) \<and> tinv vm"
proof (induction rule: reachable.induct)
  case (init raw vm h)
  then have "wf_state vm h []"
    by (auto simp: new_vm_def wf_state_def)
  moreover from init have "tinv vm"
    by (auto simp: new_vm_def tinv_def GC_INITIAL_THRESHOLD_def)
  ultimately show ?case by blast
next
  case (push_int vm h alloc v obj vm' h')
  then obtain xs where "wf_state vm h xs" "tinv vm" by blast
  with vm_push_int_spec [OF _ push_int(2,3)] show ?case by blast
next
  case (push_pair vm h alloc obj vm' h')
  then obtain xs where "wf_state vm h xs" "tinv vm" by blast
  with vm_push_pair_spec [OF _ push_pair(2,3)] show ?case by blast
next
  case (pop vm h obj vm')
  then obtain xs where wf: "wf_state vm h xs" and t: "tinv vm" by blast
  from pop(2) have vm': "vm' = vm\<lparr>stack_size := stack_size vm - 1\<rparr>"
    by (auto simp: vm_pop_def Let_def split: if_splits)
  from wf have "wf_state vm' h xs" by (auto simp: wf_state_def vm')
  moreover from t have "tinv vm'" by (simp add: tinv_def vm')
  ultimately show ?case by blast
next
  case (collect vm h vm' h')
  then obtain xs where wf: "wf_state vm h xs" and t: "tinv vm" by blast
  from gc_spec [OF wf] collect(2) have "gc_post vm h xs vm' h'" by auto
  from gc_post_wf [OF wf this] gc_tinv(1) [OF wf collect(2) t] show ?case by blast
qed

section \<open>The example states\<close>

lemma ex_wf: "wf_state ex_vm ex_heap ex_chain"
  by (simp add: wf_state_def ex_vm_def ex_heap_def ex_chain_def aligned_def STACK_MAX_def)

lemma ex_gc:
  "\<exists>h'. gc ex_vm ex_heap =
           Inr (\<lparr>first_object = 32, object_num = 4, object_max = 8, stack_size = 1,
                 stack = (\<lambda>_. 0)(0 := 24)\<rparr>, h') \<and>
         h' 48 = None \<and> h' 40 = None"
  by (simp add: ex_vm_def ex_heap_def gc_def gc_mark_all_def gc_mark_all_loop.simps
      gc_mark.simps gc_sweep_def gc_sweep_loop.simps load_link_def store_link_def
      STACK_MAX_def GC_INITIAL_THRESHOLD_def)

lemma pool_alloc_ok:
  assumes "\<And>a. a \<in> set pool \<Longrightarrow> aligned a"
  shows "malloc_ok (pool_alloc pool raw)"
  unfolding malloc_ok_def pool_alloc_def
proof
  fix h :: heap
  show "fst (case find (\<lambda>a. h a = None) pool of None \<Rightarrow> (0, raw) | Some a \<Rightarrow> (a, raw)) = 0 \<or>
        h (fst (case find (\<lambda>a. h a = None) pool of None \<Rightarrow> (0, raw) | Some a \<Rightarrow> (a, raw))) = None \<and>
        aligned (fst (case find (\<lambda>a. h a = None) pool of None \<Rightarrow> (0, raw) | Some a \<Rightarrow> (a, raw)))"
  proof (cases "find (\<lambda>a. h a = None) pool")
    case None
    then show ?thesis by simp
  next
    case (Some a)
    then have "h a = None" "a \<in> set pool"
      by (auto simp: find_Some_iff)
    with Some assms show ?thesis by simp
  qed
qed

lemma test_alloc_ok: "malloc_ok test_alloc"
  unfolding test_alloc_def by (rule pool_alloc_ok) (auto simp: aligned_def)

lemma test1_reachable: "reachable test1_vm test1_heap"
proof -
  let ?vm0 = "\<lparr>first_object = 0, object_num = 0, object_max = 8, stack_size = 0,
               stack = (\<lambda>_. 0)\<rparr>"
  let ?vm1 = "\<lparr>first_object = 8, object_num = 1, object_max = 8, stack_size = 1,
               stack = (\<lambda>_. 0)(0 := 8)\<rparr>"
  let ?h1 = "Map.empty
     (8 \<mapsto> \<lparr>mark = 0, next_ptr = 0, otype = OBJECT_TYPE_INT, ivalue = 1, head = 0, tail = 0\<rparr>)"
  have "new_vm (Some (\<lambda>_. 0)) = Inr ?vm0"
    by (simp add: new_vm_def GC_INITIAL_THRESHOLD_def)
  then have r0: "reachable ?vm0 Map.empty" by (rule reachable.init) simp
  have "vm_push_int ?vm0 Map.empty test_alloc 1 = Inr (8, ?vm1, ?h1)"
    by (simp add: vm_push_int_def new_object_def test_alloc_def pool_alloc_def raw_obj_def
        vm_push_def STACK_MAX_def)
  from reachable.push_int [OF r0 test_alloc_ok this] have r1: "reachable ?vm1 ?h1" .
  have "vm_push_int ?vm1 ?h1 test_alloc 2 = Inr (16, test1_vm, test1_heap)"
    by (simp add: vm_push_int_def new_object_def test_alloc_def pool_alloc_def raw_obj_def
        vm_push_def STACK_MAX_def test1_vm_def test1_heap_def; rule ext; simp)
  from reachable.push_int [OF r1 test_alloc_ok this] show ?thesis .
qed

lemma test1_gc: "gc test1_vm test1_heap = Inr (test1_vm\<lparr>object_max := 4\<rparr>, test1_heap)"
  by (simp add: test1_vm_def test1_heap_def gc_def gc_mark_all_def gc_mark_all_loop.simps
        gc_mark.simps gc_sweep_def gc_sweep_loop.simps load_link_def store_link_def
        STACK_MAX_def GC_INITIAL_THRESHOLD_def; rule ext; simp)

lemma pair_wf: "wf_state pair_vm pair_heap [32, 24, 16, 8]"
  by (simp add: wf_state_def pair_vm_def pair_heap_def aligned_def STACK_MAX_def)

lemma pair_run:
  "vm_push_pair pair_vm pair_heap test_alloc =
     Inr (24,
          \<lparr>first_object = 24, object_num = 3, object_max = 4, stack_size = 1,
            stack = (\<lambda>_. 0)(0 := 24, 1 := 16)\<rparr>,
          Map.empty
           (8 \<mapsto> \<lparr>mark = 0, next_ptr = 0, otype = OBJECT_TYPE_INT, ivalue = 1, head = 0, tail = 0\<rparr>,
            16 \<mapsto> \<lparr>mark = 0, next_ptr = 8, otype = OBJECT_TYPE_INT, ivalue = 2, head = 0, tail = 0\<rparr>,
            24 \<mapsto> \<lparr>mark = 0, next_ptr = 16, otype = OBJECT_TYPE_PAIR, ivalue = 0, head = 8, tail = 16\<rparr>))"
  by (simp add: vm_push_pair_def new_object_def test_alloc_def pool_alloc_def raw_obj_def
        vm_push_def vm_pop_def STACK_MAX_def pair_vm_def pair_heap_def
        gc_def gc_mark_all_def gc_mark_all_loop.simps
        gc_mark.simps gc_sweep_def gc_sweep_loop.simps load_link_def store_link_def
        GC_INITIAL_THRESHOLD_def; intro conjI ext; simp)


lemma pair_gc:
  "(if object_num pair_vm = object_max pair_vm then gc pair_vm pair_heap
    else Inr (pair_vm, pair_heap)) =
     Inr (\<lparr>first_object = 16, object_num = 2, object_max = 4, stack_size = 2,
           stack = (\<lambda>_. 0)(0 := 8, 1 := 16)\<rparr>,
          Map.empty
           (8 \<mapsto> \<lparr>mark = 0, next_ptr = 0, otype = OBJECT_TYPE_INT, ivalue = 1, head = 0, tail = 0\<rparr>,
            16 \<mapsto> \<lparr>mark = 0, next_ptr = 8, otype = OBJECT_TYPE_INT, ivalue = 2, head = 0, tail = 0\<rparr>))"
  by (simp add: pair_vm_def pair_heap_def
        gc_def gc_mark_all_def gc_mark_all_loop.simps
        gc_mark.simps gc_sweep_def gc_sweep_loop.simps load_link_def store_link_def
        STACK_MAX_def GC_INITIAL_THRESHOLD_def; intro conjI ext; simp)

section \<open>The claims\<close>

text \<open>
  Claim C1. In every well-formed state a collection cycle returns, and afterwards the chain
  from \<^verbatim>\<open>first_object\<close> holds exactly the objects of the old chain that were reachable
  from the Root Set when the cycle began, in their old order; the other objects of the old
  chain are freed; and \<^verbatim>\<open>object_num\<close> is the number of the reachable objects.
  Every state the public operations reach is well formed (\<open>reachable_inv\<close>).
\<close>

theorem gc_keeps_exactly_reachable:
  assumes "wf_state vm h xs"
  shows "\<exists>vm' h'. gc vm h = Inr (vm', h') \<and>
           chain h' (first_object vm') (filter (\<lambda>a. a \<in> reach h (roots vm)) xs) \<and>
           set (filter (\<lambda>a. a \<in> reach h (roots vm)) xs) = reach h (roots vm) \<and>
           (\<forall>a. a \<in> set xs \<and> a \<notin> reach h (roots vm) \<longrightarrow> h' a = None) \<and>
           unat (object_num vm') = card (reach h (roots vm))"
proof -
  from gc_spec [OF assms] obtain vm' h' where
    run: "gc vm h = Inr (vm', h')" and post: "gc_post vm h xs vm' h'"
    by blast
  have "wf_state vm' h' (filter (\<lambda>a. a \<in> reach h (roots vm)) xs)"
    by (rule gc_post_wf [OF assms post])
  then have "unat (object_num vm') = length (filter (\<lambda>a. a \<in> reach h (roots vm)) xs)"
    by (simp add: wf_state_def)
  with run gc_postD(1,5) [OF post] reach_card [OF assms] show ?thesis
    by auto
qed

text \<open>Claim C1 at the example state.\<close>

theorem gc_keeps_exactly_reachable_witness:
  "wf_state ex_vm ex_heap ex_chain \<and>
   (\<exists>vm' h'. gc ex_vm ex_heap = Inr (vm', h') \<and> first_object vm' = 32 \<and>
      object_num vm' = 4 \<and> h' 48 = None \<and> h' 40 = None \<and>
      chain h' (first_object vm') (filter (\<lambda>a. a \<in> reach ex_heap (roots ex_vm)) ex_chain)) \<and>
   card (reach ex_heap (roots ex_vm)) = 4"
proof -
  from gc_keeps_exactly_reachable [OF ex_wf] obtain vm' h' where
    run: "gc ex_vm ex_heap = Inr (vm', h')"
    and ch: "chain h' (first_object vm') (filter (\<lambda>a. a \<in> reach ex_heap (roots ex_vm)) ex_chain)"
    and num: "unat (object_num vm') = card (reach ex_heap (roots ex_vm))"
    by blast
  from ex_gc run have v: "first_object vm' = 32" "object_num vm' = 4" "h' 48 = None" "h' 40 = None"
    by auto
  from num v(2) have "card (reach ex_heap (roots ex_vm)) = 4" by simp
  with ex_wf run ch v show ?thesis by blast
qed

text \<open>
  Claim C2, amended. In every reachable state the threshold \<^verbatim>\<open>object_max\<close> is at least
  2, and a collection cycle from a reachable state returns with the threshold equal to
  twice the live count when the live count is not zero, without wrap-around, and equal to
  \<^verbatim>\<open>GC_INITIAL_THRESHOLD\<close> when the live count is zero. The code takes no maximum with
  \<^verbatim>\<open>GC_INITIAL_THRESHOLD\<close>: the threshold may be below it.
\<close>

theorem threshold_after_gc:
  assumes "reachable vm h"
  shows "2 \<le> object_max vm \<and>
         (\<exists>vm' h'. gc vm h = Inr (vm', h') \<and> 2 \<le> object_max vm' \<and>
            (object_num vm' \<noteq> 0 \<longrightarrow>
               object_max vm' = object_num vm' * 2 \<and>
               unat (object_max vm') = unat (object_num vm') * 2) \<and>
            (object_num vm' = 0 \<longrightarrow> object_max vm' = GC_INITIAL_THRESHOLD))"
proof -
  from reachable_inv [OF assms] obtain xs where wf: "wf_state vm h xs" and t: "tinv vm"
    by blast
  from gc_spec [OF wf] obtain vm' h' where
    run: "gc vm h = Inr (vm', h')" and post: "gc_post vm h xs vm' h'"
    by blast
  have t': "tinv vm'" by (rule gc_tinv(1) [OF wf run t])
  let ?ks = "filter (\<lambda>a. a \<in> reach h (roots vm)) xs"
  have len: "length ?ks < 2 ^ 61"
    by (rule wf_state_bound [OF gc_post_wf [OF wf post]])
  have num: "object_num vm' = of_nat (length ?ks)" by (rule gc_post_vm(4) [OF post])
  have dbl: "unat (object_num vm' * 2) = unat (object_num vm') * 2"
    unfolding num using unat_double [OF len] unat_of_nat_len [OF len] by simp
  have "object_max vm' = object_num vm' * 2" if nz': "object_num vm' \<noteq> 0"
  proof -
    have "object_num vm \<noteq> 0"
    proof
      assume "object_num vm = 0"
      from gc_zero(1) [OF wf this] run nz' this show False by simp
    qed
    from gc_threshold [OF wf run this] nz' show ?thesis by simp
  qed
  with dbl t t' run show ?thesis by (auto simp: tinv_def)
qed

text \<open>The amended claim at the state of \<^verbatim>\<open>test1\<close>: two live objects, threshold 4.\<close>

theorem threshold_after_gc_witness:
  "reachable test1_vm test1_heap \<and> 2 \<le> object_max test1_vm \<and>
   (\<exists>vm' h'. gc test1_vm test1_heap = Inr (vm', h') \<and> object_num vm' = 2 \<and>
      object_max vm' = 4 \<and> unat (object_max vm') = unat (object_num vm') * 2)"
  using threshold_after_gc [OF test1_reachable] test1_reachable test1_gc
  by (simp add: test1_vm_def)

text \<open>
  Claim C2 as stated fails at the state of \<^verbatim>\<open>test1\<close>, reached by two calls of
  \<^verbatim>\<open>vm_push_int\<close>: its collection keeps both objects and sets the threshold to 4, which
  is neither the maximum of 4 and \<^verbatim>\<open>GC_INITIAL_THRESHOLD\<close> nor at least
  \<^verbatim>\<open>GC_INITIAL_THRESHOLD\<close>, and the state after it is reachable.
\<close>

theorem threshold_below_floor_counterexample:
  "reachable test1_vm test1_heap \<and>
   gc test1_vm test1_heap = Inr (test1_vm\<lparr>object_max := 4\<rparr>, test1_heap) \<and>
   reachable (test1_vm\<lparr>object_max := 4\<rparr>) test1_heap \<and>
   object_num (test1_vm\<lparr>object_max := 4\<rparr>) = 2 \<and>
   object_max (test1_vm\<lparr>object_max := 4\<rparr>)
     \<noteq> max (object_num (test1_vm\<lparr>object_max := 4\<rparr>) * 2) GC_INITIAL_THRESHOLD \<and>
   object_max (test1_vm\<lparr>object_max := 4\<rparr>) < GC_INITIAL_THRESHOLD"
proof -
  have "reachable (test1_vm\<lparr>object_max := 4\<rparr>) test1_heap"
    by (rule reachable.collect [OF test1_reachable test1_gc])
  with test1_reachable test1_gc show ?thesis
    by (simp add: test1_vm_def GC_INITIAL_THRESHOLD_def)
qed

text \<open>
  Claim C3. \<^verbatim>\<open>gc_mark\<close> is a total function: its recursion terminates on every heap,
  cyclic or not, because each call that recurses marks an unmarked object first (the
  termination proof of \<open>gc_mark\<close>), and a call on a marked object returns the heap as it
  is. In every well-formed state \<^verbatim>\<open>gc_mark_all\<close> returns a heap in which every object
  reachable from the Root Set is marked, and the marked objects of the chain are exactly
  the reachable ones; \<^verbatim>\<open>gc_mark\<close> on a chained object returns a heap in which every
  object reachable from it is marked.
\<close>

theorem gc_mark_all_marks_reachable:
  assumes "wf_state vm h xs"
  shows "(\<exists>h1. gc_mark_all vm h = Inr h1 \<and> reach h (roots vm) \<subseteq> marked h1 \<and>
              marked h1 \<inter> set xs = reach h (roots vm)) \<and>
         (\<forall>h0 obj ob. h0 obj = Some ob \<and> mark ob \<noteq> 0 \<longrightarrow> gc_mark h0 obj = Inr h0) \<and>
         (\<forall>obj\<in>set xs. \<exists>h1. gc_mark h obj = Inr h1 \<and> reach h {obj} \<subseteq> marked h1)"
proof (intro conjI)
  from gc_mark_all_spec [OF assms]
  show "\<exists>h1. gc_mark_all vm h = Inr h1 \<and> reach h (roots vm) \<subseteq> marked h1 \<and>
              marked h1 \<inter> set xs = reach h (roots vm)"
    by blast
  show "\<forall>h0 obj ob. h0 obj = Some ob \<and> mark ob \<noteq> 0 \<longrightarrow> gc_mark h0 obj = Inr h0"
    by (simp add: gc_mark.simps)
  show "\<forall>obj\<in>set xs. \<exists>h1. gc_mark h obj = Inr h1 \<and> reach h {obj} \<subseteq> marked h1"
  proof
    fix obj assume obj: "obj \<in> set xs"
    have c: "closed_on (set xs) h" by (rule wf_state_closed [OF assms])
    from gc_mark_spec [OF c obj] obtain h1 where
      run: "gc_mark h obj = Inr h1" and post: "mark_post h {obj} h1"
      by blast
    note P = mark_postD [OF post]
    have um: "marked h \<inter> set xs = {}" by (rule wf_state_unmarked [OF assms])
    have rs: "reach h {obj} \<subseteq> set xs"
      by (rule reach_closed_on [OF c]) (use obj in simp)
    have "reach h {obj} \<subseteq> marked h1 \<inter> set xs"
    proof (rule reach_closedI)
      show "{obj} \<subseteq> marked h1 \<inter> set xs" using P(3) obj by simp
    next
      fix a assume a: "a \<in> marked h1 \<inter> set xs"
      with um have "a \<notin> marked h" by blast
      with P(5) [of a] a have "succs h a \<subseteq> marked h1" by blast
      moreover from c a have "succs h a \<subseteq> set xs" by (auto simp: closed_on_def)
      ultimately show "succs h a \<subseteq> marked h1 \<inter> set xs" by blast
    qed
    with run show "\<exists>h1. gc_mark h obj = Inr h1 \<and> reach h {obj} \<subseteq> marked h1" by blast
  qed
qed

text \<open>Claim C3 at the example state, and for the self-referential pair at 48.\<close>

theorem gc_mark_all_marks_reachable_witness:
  "wf_state ex_vm ex_heap ex_chain \<and>
   (\<exists>h1. gc_mark_all ex_vm ex_heap = Inr h1 \<and> reach ex_heap (roots ex_vm) \<subseteq> marked h1 \<and>
         marked h1 \<inter> set ex_chain = reach ex_heap (roots ex_vm)) \<and>
   (\<exists>h1. gc_mark ex_heap 48 = Inr h1 \<and> reach ex_heap {48} \<subseteq> marked h1)"
proof -
  note T = gc_mark_all_marks_reachable [OF ex_wf]
  have "48 \<in> set ex_chain" by (simp add: ex_chain_def)
  with T have "\<exists>h1. gc_mark ex_heap 48 = Inr h1 \<and> reach ex_heap {48} \<subseteq> marked h1"
    by blast
  with T ex_wf show ?thesis by blast
qed

text \<open>
  Claim C4. In a well-formed state with at least two entries on the stack, and with a
  well-behaved \<^verbatim>\<open>malloc\<close>, the collection-trigger check of \<^verbatim>\<open>vm_push_pair\<close> runs in
  \<^verbatim>\<open>new_object\<close> on the state as it is, with both operands on the stack, and returns a
  state \<open>(vm1, h1)\<close> with the same stack. \<^verbatim>\<open>vm_push_pair\<close> fails at the allocation
  exactly when \<^verbatim>\<open>malloc\<close> returns the null pointer on \<open>h1\<close>. Otherwise it returns the
  address \<^verbatim>\<open>malloc\<close> gave, now a pair whose \<^verbatim>\<open>tail\<close> is the top entry and whose
  \<^verbatim>\<open>head\<close> is the entry below it, linked at the head of the chain; the two entries are
  replaced by the pair; and both operands are allocated in \<open>h1\<close> and afterwards, with
  their payload unchanged: the collection has not reclaimed them.
\<close>

theorem vm_push_pair_operands:
  assumes "wf_state vm h xs" and "malloc_ok alloc" and "2 \<le> stack_size vm"
  shows "\<exists>vm1 h1.
           (if object_num vm = object_max vm then gc vm h else Inr (vm, h)) = Inr (vm1, h1) \<and>
           stack vm1 = stack vm \<and> stack_size vm1 = stack_size vm \<and>
           (vm_push_pair vm h alloc = Inl AllocationFailed \<longleftrightarrow> fst (alloc h1) = 0) \<and>
           (fst (alloc h1) \<noteq> 0 \<longrightarrow>
              (\<exists>vm' h' p.
                 vm_push_pair vm h alloc = Inr (fst (alloc h1), vm', h') \<and>
                 vm' = vm1\<lparr>first_object := fst (alloc h1), object_num := object_num vm1 + 1,
                           stack := (stack vm)(stack_size vm - 2 := fst (alloc h1)),
                           stack_size := stack_size vm - 1\<rparr> \<and>
                 h' = h1(fst (alloc h1) \<mapsto> p) \<and>
                 p = (snd (alloc h1))\<lparr>mark := 0, otype := OBJECT_TYPE_PAIR,
                                        next_ptr := first_object vm1,
                                        tail := stack vm (stack_size vm - 1),
                                        head := stack vm (stack_size vm - 2)\<rparr> \<and>
                 h' (fst (alloc h1)) = Some p \<and> otype p = OBJECT_TYPE_PAIR \<and>
                 tail p = stack vm (stack_size vm - 1) \<and>
                 head p = stack vm (stack_size vm - 2) \<and>
                 stack_size vm' = stack_size vm - 1 \<and>
                 stack vm' = (stack vm)(stack_size vm - 2 := fst (alloc h1)) \<and>
                 (\<forall>a. a = head p \<or> a = tail p \<longrightarrow>
                    a \<noteq> fst (alloc h1) \<and>
                    (\<exists>ob ob'. h a = Some ob \<and> h1 a = Some ob' \<and> h' a = Some ob' \<and>
                        otype ob' = otype ob \<and> ivalue ob' = ivalue ob \<and>
                        head ob' = head ob \<and> tail ob' = tail ob))))"
proof -
  from vm_push_pair_exact [OF assms] obtain vm1 h1 ks where
    g: "(if object_num vm = object_max vm then gc vm h else Inr (vm, h)) = Inr (vm1, h1)"
    and k: "kept vm h xs vm1 h1 ks"
    and fail: "fst (alloc h1) = 0 \<Longrightarrow> vm_push_pair vm h alloc = Inl AllocationFailed"
    and succ: "fst (alloc h1) \<noteq> 0 \<Longrightarrow>
              h1 (fst (alloc h1)) = None \<and>
              vm_push_pair vm h alloc =
                Inr (fst (alloc h1),
                     vm1\<lparr>first_object := fst (alloc h1), object_num := object_num vm1 + 1,
                         stack := (stack vm)(stack_size vm - 2 := fst (alloc h1)),
                         stack_size := stack_size vm - 1\<rparr>,
                     h1(fst (alloc h1) \<mapsto>
                          (snd (alloc h1))\<lparr>mark := 0, otype := OBJECT_TYPE_PAIR,
                                            next_ptr := first_object vm1,
                                            tail := stack vm (stack_size vm - 1),
                                            head := stack vm (stack_size vm - 2)\<rparr>))"
    by blast
  note K = keptD [OF k]
  let ?obj = "fst (alloc h1)"
  let ?p = "(snd (alloc h1))\<lparr>mark := 0, otype := OBJECT_TYPE_PAIR, next_ptr := first_object vm1,
                 tail := stack vm (stack_size vm - 1), head := stack vm (stack_size vm - 2)\<rparr>"
  let ?h' = "h1(?obj \<mapsto> ?p)"
  let ?vm' = "vm1\<lparr>first_object := ?obj, object_num := object_num vm1 + 1,
                   stack := (stack vm)(stack_size vm - 2 := ?obj),
                   stack_size := stack_size vm - 1\<rparr>"
  have iff: "vm_push_pair vm h alloc = Inl AllocationFailed \<longleftrightarrow> ?obj = 0"
  proof
    assume f: "vm_push_pair vm h alloc = Inl AllocationFailed"
    show "?obj = 0"
    proof (rule ccontr)
      assume "?obj \<noteq> 0"
      from succ [OF this] f show False by simp
    qed
  next
    assume "?obj = 0"
    then show "vm_push_pair vm h alloc = Inl AllocationFailed" by (rule fail)
  qed
  have st: "stack vm i \<in> set ks" if "i < stack_size vm" for i
    using K(1) that unfolding K(2) [symmetric] K(3) [symmetric] by (simp add: wf_state_def)
  have ops: "stack vm (stack_size vm - 1) \<in> set ks" "stack vm (stack_size vm - 2) \<in> set ks"
    using assms(3) by (auto intro: st)
  have S: "\<exists>vm' h' p.
                 vm_push_pair vm h alloc = Inr (?obj, vm', h') \<and>
                 vm' = ?vm' \<and> h' = h1(?obj \<mapsto> p) \<and> p = ?p \<and>
                 h' ?obj = Some p \<and> otype p = OBJECT_TYPE_PAIR \<and>
                 tail p = stack vm (stack_size vm - 1) \<and>
                 head p = stack vm (stack_size vm - 2) \<and>
                 stack_size vm' = stack_size vm - 1 \<and>
                 stack vm' = (stack vm)(stack_size vm - 2 := ?obj) \<and>
                 (\<forall>a. a = head p \<or> a = tail p \<longrightarrow>
                    a \<noteq> ?obj \<and>
                    (\<exists>ob ob'. h a = Some ob \<and> h1 a = Some ob' \<and> h' a = Some ob' \<and>
                        otype ob' = otype ob \<and> ivalue ob' = ivalue ob \<and>
                        head ob' = head ob \<and> tail ob' = tail ob))"
    if nz: "?obj \<noteq> 0"
  proof -
    from succ [OF nz] have fresh: "h1 ?obj = None"
      and run: "vm_push_pair vm h alloc = Inr (?obj, ?vm', ?h')"
      by simp_all
    have surv: "a \<noteq> ?obj \<and>
          (\<exists>ob ob'. h a = Some ob \<and> h1 a = Some ob' \<and> ?h' a = Some ob' \<and>
              otype ob' = otype ob \<and> ivalue ob' = ivalue ob \<and>
              head ob' = head ob \<and> tail ob' = tail ob)"
      if "a \<in> set ks" for a
    proof -
      from K(5) [OF that] obtain ob n where
        ob: "h a = Some ob" "h1 a = Some (ob\<lparr>next_ptr := n\<rparr>)"
        by blast
      with fresh have "a \<noteq> ?obj" by auto
      with ob show ?thesis by simp
    qed
    have A: "\<forall>a. a = head ?p \<or> a = tail ?p \<longrightarrow>
          a \<noteq> ?obj \<and>
          (\<exists>ob ob'. h a = Some ob \<and> h1 a = Some ob' \<and> ?h' a = Some ob' \<and>
              otype ob' = otype ob \<and> ivalue ob' = ivalue ob \<and>
              head ob' = head ob \<and> tail ob' = tail ob)"
    proof (intro allI impI)
      fix a assume "a = head ?p \<or> a = tail ?p"
      then have "a \<in> set ks" using ops by auto
      then show "a \<noteq> ?obj \<and>
          (\<exists>ob ob'. h a = Some ob \<and> h1 a = Some ob' \<and> ?h' a = Some ob' \<and>
              otype ob' = otype ob \<and> ivalue ob' = ivalue ob \<and>
              head ob' = head ob \<and> tail ob' = tail ob)"
        by (rule surv)
    qed
    have B: "?h' ?obj = Some ?p" "otype ?p = OBJECT_TYPE_PAIR"
      "tail ?p = stack vm (stack_size vm - 1)" "head ?p = stack vm (stack_size vm - 2)"
      "stack_size ?vm' = stack_size vm - 1"
      "stack ?vm' = (stack vm)(stack_size vm - 2 := ?obj)"
      by simp_all
    show ?thesis
      by (rule exI [of _ ?vm'], rule exI [of _ ?h'], rule exI [of _ ?p])
        (intro conjI run refl B A)
  qed
  from g K(2,3) iff S show ?thesis by blast
qed

text \<open>Claim C4 at a state at its threshold, where the allocation triggers a collection that
  frees 24 and 32, and \<^verbatim>\<open>malloc\<close> then returns 24.\<close>

theorem vm_push_pair_operands_witness:
  "wf_state pair_vm pair_heap [32, 24, 16, 8] \<and> malloc_ok test_alloc \<and> 2 \<le> stack_size pair_vm \<and>
   object_num pair_vm = object_max pair_vm \<and>
   (\<exists>vm1 h1. gc pair_vm pair_heap = Inr (vm1, h1) \<and> h1 24 = None \<and> h1 32 = None \<and>
      fst (test_alloc h1) = 24) \<and>
   (\<exists>obj vm' h' p.
      vm_push_pair pair_vm pair_heap test_alloc = Inr (obj, vm', h') \<and>
      obj = 24 \<and> h' 32 = None \<and>
      h' obj = Some p \<and> otype p = OBJECT_TYPE_PAIR \<and> tail p = 16 \<and> head p = 8 \<and>
      stack_size vm' = 1 \<and> stack vm' 0 = obj \<and>
      (\<exists>ob ob'. pair_heap 8 = Some ob \<and> h' 8 = Some ob' \<and> ivalue ob' = ivalue ob) \<and>
      (\<exists>ob ob'. pair_heap 16 = Some ob \<and> h' 16 = Some ob' \<and> ivalue ob' = ivalue ob))"
proof -
  have two: "2 \<le> stack_size pair_vm" by (simp add: pair_vm_def)
  have eq: "object_num pair_vm = object_max pair_vm" by (simp add: pair_vm_def)
  from vm_push_pair_operands [OF pair_wf test_alloc_ok two] obtain vm1 h1 where
    g: "(if object_num pair_vm = object_max pair_vm then gc pair_vm pair_heap
         else Inr (pair_vm, pair_heap)) = Inr (vm1, h1)"
    and iff: "vm_push_pair pair_vm pair_heap test_alloc = Inl AllocationFailed
                \<longleftrightarrow> fst (test_alloc h1) = 0"
    and succ: "fst (test_alloc h1) \<noteq> 0 \<longrightarrow>
       (\<exists>vm' h' p. vm_push_pair pair_vm pair_heap test_alloc = Inr (fst (test_alloc h1), vm', h') \<and>
          h' (fst (test_alloc h1)) = Some p \<and> otype p = OBJECT_TYPE_PAIR \<and>
          tail p = stack pair_vm (stack_size pair_vm - 1) \<and>
          head p = stack pair_vm (stack_size pair_vm - 2))"
    by blast
  from iff pair_run have nz: "fst (test_alloc h1) \<noteq> 0" by simp
  with succ pair_run obtain vm' h' p where
    r: "vm_push_pair pair_vm pair_heap test_alloc = Inr (fst (test_alloc h1), vm', h')"
    and p: "h' (fst (test_alloc h1)) = Some p" "otype p = OBJECT_TYPE_PAIR"
      "tail p = stack pair_vm (stack_size pair_vm - 1)"
      "head p = stack pair_vm (stack_size pair_vm - 2)"
    by blast
  from r pair_run have o: "fst (test_alloc h1) = 24" by simp
  from p have p': "tail p = 16" "head p = 8" by (simp_all add: pair_vm_def)
  from g eq have g': "gc pair_vm pair_heap = Inr (vm1, h1)" by simp
  from g pair_gc have h1: "h1 24 = None" "h1 32 = None" by auto
  have G: "\<exists>vm1 h1. gc pair_vm pair_heap = Inr (vm1, h1) \<and> h1 24 = None \<and> h1 32 = None \<and>
      fst (test_alloc h1) = 24"
    using g' h1 o by blast
  from r o p pair_run have hp: "h' 24 = Some p" by simp
  have R: "\<exists>obj vm' h' p.
      vm_push_pair pair_vm pair_heap test_alloc = Inr (obj, vm', h') \<and>
      obj = 24 \<and> h' 32 = None \<and>
      h' obj = Some p \<and> otype p = OBJECT_TYPE_PAIR \<and> tail p = 16 \<and> head p = 8 \<and>
      stack_size vm' = 1 \<and> stack vm' 0 = obj \<and>
      (\<exists>ob ob'. pair_heap 8 = Some ob \<and> h' 8 = Some ob' \<and> ivalue ob' = ivalue ob) \<and>
      (\<exists>ob ob'. pair_heap 16 = Some ob \<and> h' 16 = Some ob' \<and> ivalue ob' = ivalue ob)"
    using r o pair_run hp p(2) p' by (simp add: pair_heap_def)
  from pair_wf test_alloc_ok two eq G R show ?thesis by blast
qed

text \<open>
  Claim C5. A collection cycle that starts in a well-formed state with a live count other
  than zero returns; afterwards the threshold is twice the new live count when that is
  not zero (the multiplication does not wrap around), and \<^verbatim>\<open>GC_INITIAL_THRESHOLD\<close> when
  it is zero.
\<close>

theorem gc_sets_threshold:
  assumes "wf_state vm h xs" and "object_num vm \<noteq> 0"
  shows "\<exists>vm' h'. gc vm h = Inr (vm', h') \<and>
           (object_num vm' \<noteq> 0 \<longrightarrow>
              object_max vm' = object_num vm' * 2 \<and>
              unat (object_max vm') = unat (object_num vm') * 2) \<and>
           (object_num vm' = 0 \<longrightarrow> object_max vm' = GC_INITIAL_THRESHOLD)"
proof -
  from gc_spec [OF assms(1)] obtain vm' h' where
    run: "gc vm h = Inr (vm', h')" and post: "gc_post vm h xs vm' h'"
    by blast
  let ?ks = "filter (\<lambda>a. a \<in> reach h (roots vm)) xs"
  have len: "length ?ks < 2 ^ 61"
    by (rule wf_state_bound [OF gc_post_wf [OF assms(1) post]])
  have num: "object_num vm' = of_nat (length ?ks)" by (rule gc_post_vm(4) [OF post])
  have "unat (object_num vm' * 2) = unat (object_num vm') * 2"
    unfolding num using unat_double [OF len] unat_of_nat_len [OF len] by simp
  with gc_threshold [OF assms(1) run assms(2)] run show ?thesis by auto
qed

text \<open>Claim C5 at the example state.\<close>

theorem gc_sets_threshold_witness:
  "wf_state ex_vm ex_heap ex_chain \<and> object_num ex_vm \<noteq> 0 \<and>
   (\<exists>vm' h'. gc ex_vm ex_heap = Inr (vm', h') \<and> object_num vm' = 4 \<and> object_max vm' = 8 \<and>
      unat (object_max vm') = unat (object_num vm') * 2)"
proof -
  have nz: "object_num ex_vm \<noteq> 0" by (simp add: ex_vm_def)
  with gc_sets_threshold [OF ex_wf nz] ex_gc ex_wf show ?thesis by auto
qed

text \<open>
  Claim C6. In every well-formed state, a second collection cycle right after the first
  changes nothing: it returns the state the first one returned, machine and heap.
\<close>

theorem gc_idempotent:
  assumes "wf_state vm h xs"
  shows "\<exists>vm1 h1. gc vm h = Inr (vm1, h1) \<and> gc vm1 h1 = Inr (vm1, h1)"
proof -
  from gc_spec [OF assms] obtain vm1 h1 where run: "gc vm h = Inr (vm1, h1)" by blast
  with gc_twice [OF assms run] show ?thesis by blast
qed

text \<open>Claim C6 at the example state.\<close>

theorem gc_idempotent_witness:
  "wf_state ex_vm ex_heap ex_chain \<and>
   (\<exists>vm1 h1. gc ex_vm ex_heap = Inr (vm1, h1) \<and> gc vm1 h1 = Inr (vm1, h1))"
  using gc_idempotent [OF ex_wf] ex_wf by (rule_tac conjI)

text \<open>
  Claim C7. In every well-formed state \<^verbatim>\<open>free_vm\<close> returns with \<^verbatim>\<open>object_num\<close> zero,
  \<^verbatim>\<open>first_object\<close> null, that is an empty chain, and every object of the old chain
  freed.
\<close>

theorem free_vm_reclaims_everything:
  assumes "wf_state vm h xs"
  shows "\<exists>vm' h'. free_vm vm h = Inr (vm', h') \<and> object_num vm' = 0 \<and>
           first_object vm' = 0 \<and> chain h' (first_object vm') [] \<and>
           (\<forall>a. a \<in> set xs \<longrightarrow> h' a = None)"
proof -
  let ?vm = "vm\<lparr>stack_size := 0\<rparr>"
  have wf: "wf_state ?vm h xs" using assms by (simp add: wf_state_def)
  have r: "reach h (roots ?vm) = {}" by (simp add: roots_def reach_empty)
  from gc_spec [OF wf] obtain vm' h' where
    run: "gc ?vm h = Inr (vm', h')" and post: "gc_post ?vm h xs vm' h'"
    by blast
  note P = gc_postD [OF post, unfolded r] and V = gc_post_vm [OF post, unfolded r]
  from P(1) have "first_object vm' = 0" by simp
  moreover from V(4) have "object_num vm' = 0" by simp
  moreover have "h' a = None" if "a \<in> set xs" for a using P(5) [OF that] by simp
  ultimately show ?thesis using run by (simp add: free_vm_def)
qed

text \<open>Claim C7 at the example state.\<close>

theorem free_vm_reclaims_everything_witness:
  "wf_state ex_vm ex_heap ex_chain \<and>
   (\<exists>vm' h'. free_vm ex_vm ex_heap = Inr (vm', h') \<and> object_num vm' = 0 \<and>
      first_object vm' = 0 \<and> chain h' (first_object vm') [] \<and>
      (\<forall>a. a \<in> set ex_chain \<longrightarrow> h' a = None))"
  using free_vm_reclaims_everything [OF ex_wf] ex_wf by (rule_tac conjI)

text \<open>
  Claim C8. With a depth of at most \<^verbatim>\<open>STACK_MAX\<close>, \<^verbatim>\<open>vm_push\<close> fails, with the stack
  overflow, exactly when the depth is \<^verbatim>\<open>STACK_MAX\<close>, and otherwise stores the reference at
  the top and adds one to the depth; \<^verbatim>\<open>vm_pop\<close> fails, with the stack underflow, exactly
  when the depth is zero, and otherwise returns the top entry and takes one from the depth;
  \<^verbatim>\<open>vm_pop\<close> after \<^verbatim>\<open>vm_push\<close> returns the reference pushed and the old depth.
\<close>

theorem push_pop_failures:
  assumes "stack_size vm \<le> STACK_MAX"
  shows "(vm_push vm v = Inl StackOverflow \<longleftrightarrow> stack_size vm = STACK_MAX) \<and>
         (stack_size vm \<noteq> STACK_MAX \<longrightarrow>
            vm_push vm v = Inr (vm\<lparr>stack := (stack vm)(stack_size vm := v),
                                   stack_size := stack_size vm + 1\<rparr>)) \<and>
         (vm_pop vm = Inl StackUnderflow \<longleftrightarrow> stack_size vm = 0) \<and>
         (stack_size vm \<noteq> 0 \<longrightarrow>
            vm_pop vm = Inr (stack vm (stack_size vm - 1), vm\<lparr>stack_size := stack_size vm - 1\<rparr>)) \<and>
         (stack_size vm \<noteq> STACK_MAX \<longrightarrow>
            (\<exists>vm'. vm_push vm v = Inr vm' \<and> vm_pop vm' = Inr (v, vm'\<lparr>stack_size := stack_size vm\<rparr>)))"
  using assms by (auto simp: vm_push_def vm_pop_def STACK_MAX_def Let_def)

text \<open>Claim C8 at the example machine, at depth 1, 0 and \<^verbatim>\<open>STACK_MAX\<close>.\<close>

theorem push_pop_failures_witness:
  "stack_size ex_vm \<le> STACK_MAX \<and>
   vm_push ex_vm 16 = Inr (ex_vm\<lparr>stack := (stack ex_vm)(1 := 16), stack_size := 2\<rparr>) \<and>
   vm_pop ex_vm = Inr (24, ex_vm\<lparr>stack_size := 0\<rparr>) \<and>
   vm_pop (ex_vm\<lparr>stack_size := 0\<rparr>) = Inl StackUnderflow \<and>
   vm_push (ex_vm\<lparr>stack_size := STACK_MAX\<rparr>) 16 = Inl StackOverflow"
proof -
  have le: "stack_size ex_vm \<le> STACK_MAX" by (simp add: ex_vm_def STACK_MAX_def)
  have le0: "stack_size (ex_vm\<lparr>stack_size := 0\<rparr>) \<le> STACK_MAX" by simp
  have leM: "stack_size (ex_vm\<lparr>stack_size := STACK_MAX\<rparr>) \<le> STACK_MAX" by simp
  show ?thesis
    using push_pop_failures [OF le, of 16] push_pop_failures [OF le0, of 16]
      push_pop_failures [OF leM, of 16] le
    by (simp add: ex_vm_def STACK_MAX_def)
qed

text \<open>
  Claim C9. A collection cycle in a well-formed state changes, of the machine, only
  \<^verbatim>\<open>first_object\<close>, \<^verbatim>\<open>object_num\<close> and \<^verbatim>\<open>object_max\<close>: the depth and every entry of
  the stack are as before. An object outside the chain is untouched; every object that is
  allocated afterwards was allocated before, at the same address, with the same type,
  value, head, tail and mark; and every reachable object is still allocated, unmarked.
\<close>

theorem gc_frame:
  assumes "wf_state vm h xs"
  shows "\<exists>vm' h'. gc vm h = Inr (vm', h') \<and>
           stack_size vm' = stack_size vm \<and> stack vm' = stack vm \<and>
           vm' = vm\<lparr>first_object := first_object vm', object_num := object_num vm',
                     object_max := object_max vm'\<rparr> \<and>
           (\<forall>a. a \<notin> set xs \<longrightarrow> h' a = h a) \<and>
           (\<forall>a ob'. h' a = Some ob' \<longrightarrow>
              (\<exists>ob. h a = Some ob \<and> otype ob' = otype ob \<and> ivalue ob' = ivalue ob \<and>
                    head ob' = head ob \<and> tail ob' = tail ob \<and> mark ob' = mark ob)) \<and>
           (\<forall>a. a \<in> reach h (roots vm) \<longrightarrow>
              (\<exists>ob ob'. h a = Some ob \<and> h' a = Some ob' \<and> mark ob' = 0))"
proof -
  from gc_spec [OF assms] obtain vm' h' where
    run: "gc vm h = Inr (vm', h')" and post: "gc_post vm h xs vm' h'"
    by blast
  note P = gc_postD [OF post] and V = gc_post_vm [OF post]
  have A: "\<exists>ob. h a = Some ob \<and> otype ob' = otype ob \<and> ivalue ob' = ivalue ob \<and>
                 head ob' = head ob \<and> tail ob' = tail ob \<and> mark ob' = mark ob"
    if h': "h' a = Some ob'" for a ob'
  proof (cases "a \<in> set xs")
    case False
    from P(3) [OF False] h' have "h a = Some ob'" by simp
    then show ?thesis by blast
  next
    case True
    show ?thesis
    proof (cases "a \<in> reach h (roots vm)")
      case False
      with P(5) [OF True] h' show ?thesis by simp
    next
      case r: True
      from P(4) [OF True r] h' show ?thesis by auto
    qed
  qed
  have B: "\<exists>ob ob'. h a = Some ob \<and> h' a = Some ob' \<and> mark ob' = 0"
    if r: "a \<in> reach h (roots vm)" for a
  proof -
    from r wf_state_reach [OF assms] have a: "a \<in> set xs" by blast
    from wf_state_lookup [OF assms a] obtain ob where ob: "h a = Some ob" "mark ob = 0" by blast
    with P(4) [OF a r] show ?thesis by auto
  qed
  have F: "vm' = vm\<lparr>first_object := first_object vm', object_num := object_num vm',
                     object_max := object_max vm'\<rparr>"
    using P(2) unfolding V(4) [symmetric] .
  have G: "\<forall>a. a \<notin> set xs \<longrightarrow> h' a = h a" using P(3) by blast
  from run V(1,2) F G A B show ?thesis by blast
qed

text \<open>Claim C9 at the example state.\<close>

theorem gc_frame_witness:
  "wf_state ex_vm ex_heap ex_chain \<and>
   (\<exists>vm' h'. gc ex_vm ex_heap = Inr (vm', h') \<and>
      stack_size vm' = stack_size ex_vm \<and> stack vm' = stack ex_vm \<and>
      vm' = ex_vm\<lparr>first_object := first_object vm', object_num := object_num vm',
                   object_max := object_max vm'\<rparr> \<and>
      (\<forall>a. a \<notin> set ex_chain \<longrightarrow> h' a = ex_heap a) \<and>
      (\<forall>a ob'. h' a = Some ob' \<longrightarrow>
         (\<exists>ob. ex_heap a = Some ob \<and> otype ob' = otype ob \<and> ivalue ob' = ivalue ob \<and>
               head ob' = head ob \<and> tail ob' = tail ob \<and> mark ob' = mark ob)) \<and>
      (\<forall>a. a \<in> reach ex_heap (roots ex_vm) \<longrightarrow>
         (\<exists>ob ob'. ex_heap a = Some ob \<and> h' a = Some ob' \<and> mark ob' = 0)))"
  using gc_frame [OF ex_wf] ex_wf by (rule_tac conjI)

text \<open>
  Claim C10. In every state reached from a new machine by \<^verbatim>\<open>vm_push_int\<close>,
  \<^verbatim>\<open>vm_push_pair\<close>, \<^verbatim>\<open>vm_pop\<close> and \<^verbatim>\<open>gc\<close>, the threshold is positive, the live count
  is at most the threshold, and a live count of zero comes with the threshold
  \<^verbatim>\<open>GC_INITIAL_THRESHOLD\<close>, which is 8. So an allocation never finds the live count
  above the threshold.
\<close>

theorem counters_invariant:
  assumes "reachable vm h"
  shows "0 < object_max vm \<and> object_num vm \<le> object_max vm \<and>
         (object_num vm = 0 \<longrightarrow> object_max vm = GC_INITIAL_THRESHOLD \<and> object_max vm = 8)"
proof -
  from reachable_inv [OF assms] have t: "tinv vm" by blast
  then have "2 \<le> object_max vm" by (simp add: tinv_def)
  then have "unat (2 :: size_t) \<le> unat (object_max vm)" by (simp only: word_le_nat_alt)
  then have "0 < unat (object_max vm)" by simp
  then have "0 < object_max vm" by (simp add: word_less_nat_alt)
  with t show ?thesis by (simp add: tinv_def GC_INITIAL_THRESHOLD_def)
qed

text \<open>Claim C10 at the state of \<^verbatim>\<open>test1\<close> after its collection.\<close>

theorem counters_invariant_witness:
  "reachable test1_vm test1_heap \<and> reachable (test1_vm\<lparr>object_max := 4\<rparr>) test1_heap \<and>
   0 < object_max (test1_vm\<lparr>object_max := 4\<rparr>) \<and>
   object_num (test1_vm\<lparr>object_max := 4\<rparr>) \<le> object_max (test1_vm\<lparr>object_max := 4\<rparr>)"
proof -
  have r: "reachable (test1_vm\<lparr>object_max := 4\<rparr>) test1_heap"
    by (rule reachable.collect [OF test1_reachable test1_gc])
  from counters_invariant [OF r] r test1_reachable show ?thesis by simp
qed

end
